theory Spec2Isabelle
  imports Main "HOL-Library.Word" "HOL-Library.AList"
begin

section \<open>Entities and the ordered entity set\<close>

text \<open>
  \<^verbatim>\<open>struct Entity { unsigned entityId; }\<close> with the defaulted comparison: entities are
  ordered by their 32-bit identifier.
\<close>

datatype Entity = Entity (entityId: "32 word")

datatype error = out_of_range | undefined_behaviour

text \<open>
  \<^verbatim>\<open>std::set<Entity>\<close> is a strictly ascending sequence without duplicates. The type
  below carries that representation invariant, so that iteration order, positions and
  sizes are those of the C++ container.
\<close>

fun insert_sorted :: "Entity \<Rightarrow> Entity list \<Rightarrow> Entity list" where
  "insert_sorted e [] = [e]"
| "insert_sorted e (x # xs) =
     (if entityId e < entityId x then e # x # xs
      else if entityId x < entityId e then x # insert_sorted e xs
      else x # xs)"

lemma set_insert_sorted: "set (insert_sorted e xs) = insert e (set xs)"
proof (induction xs)
  case Nil
  show ?case by simp
next
  case (Cons x xs)
  have "e = x" if "\<not> entityId e < entityId x" "\<not> entityId x < entityId e"
    using that by (cases e; cases x) auto
  with Cons show ?case by auto
qed

lemma sorted_insert_sorted:
  "sorted_wrt (\<lambda>a b. entityId a < entityId b) xs \<Longrightarrow>
   sorted_wrt (\<lambda>a b. entityId a < entityId b) (insert_sorted e xs)"
  by (induction xs) (auto simp: set_insert_sorted)

typedef entity_set = "{xs :: Entity list. sorted_wrt (\<lambda>a b. entityId a < entityId b) xs}"
  morphisms elements Abs_entity_set
  by (rule exI [of _ "[]"]) simp

setup_lifting type_definition_entity_set

lift_definition set_empty :: entity_set is "[]"
  by simp

lift_definition set_insert :: "Entity \<Rightarrow> entity_set \<Rightarrow> entity_set" is insert_sorted
  by (rule sorted_insert_sorted)

lift_definition set_erase :: "Entity \<Rightarrow> entity_set \<Rightarrow> entity_set"
  is "\<lambda>e. filter (\<lambda>x. x \<noteq> e)"
  by (rule sorted_wrt_filter)

definition set_contains :: "entity_set \<Rightarrow> Entity \<Rightarrow> bool" where
  "set_contains s e = (e \<in> set (elements s))"

definition set_size :: "entity_set \<Rightarrow> nat" where
  "set_size s = length (elements s)"

section \<open>Event dispatchers\<close>

text \<open>
  A callback is a \<^verbatim>\<open>std::function<void(World&, Entity)>\<close>: code that may change the world
  it is handed and whatever it captured. The world cannot contain functions on worlds,
  so a dispatcher stores callback tokens of type \<open>'cb\<close>, and every operation that
  publishes takes the interpretation \<open>run\<close> of the tokens: \<open>run cb entity\<close> transforms
  the pair of the world and the captured environment. Callbacks are total: one that
  throws or does not return is outside this model.

  \<^verbatim>\<open>callbacks\<close> is an unordered map; the list gives its entries in iteration order.
  Where a new entry goes in that order C++ leaves open; the model puts it last, and
  nothing below depends on the order.
\<close>

record 'cb EventDispatcher =
  nextCallbackId :: "32 word"
  callbacks :: "(32 word \<times> 'cb) list"

definition EventDispatcher_init :: "'cb EventDispatcher" where
  "EventDispatcher_init = \<lparr>nextCallbackId = 0, callbacks = []\<rparr>"

definition connect :: "'cb \<Rightarrow> 'cb EventDispatcher \<Rightarrow> 32 word \<times> 'cb EventDispatcher" where
  "connect f d =
     (let id = nextCallbackId d in
      (id, d\<lparr>nextCallbackId := nextCallbackId d + 1,
             callbacks := AList.update id f (callbacks d)\<rparr>))"

definition disconnect :: "32 word \<Rightarrow> 'cb EventDispatcher \<Rightarrow> 'cb EventDispatcher" where
  "disconnect callbackId d = d\<lparr>callbacks := AList.delete callbackId (callbacks d)\<rparr>"

text \<open>
  \<^verbatim>\<open>publish\<close> walks the callbacks present when it starts. (A callback that connects to
  or disconnects from the dispatcher being published invalidates the C++ iteration;
  the model does not follow that case.)
\<close>

definition publish ::
  "('cb \<Rightarrow> Entity \<Rightarrow> 's \<Rightarrow> 's) \<Rightarrow> 'cb EventDispatcher \<Rightarrow> Entity \<Rightarrow> 's \<Rightarrow> 's" where
  "publish run d entity s = fold (\<lambda>item. run (snd item) entity) (callbacks d) s"

section \<open>Component storage\<close>

text \<open>
  \<^verbatim>\<open>Storage<Component>\<close> is a \<^verbatim>\<open>std::map<Entity, Component>\<close> (field \<open>items\<close>) that also
  carries the membership set \<^verbatim>\<open>StorageBase::entities\<close> (field \<open>members\<close>; the world has
  a field \<^verbatim>\<open>entities\<close> of its own) and three dispatchers.
\<close>

record ('v, 'cb) Storage =
  members :: entity_set
  items :: "Entity \<rightharpoonup> 'v"
  createEventDispatcher :: "'cb EventDispatcher"
  updateEventDispatcher :: "'cb EventDispatcher"
  removeEventDispatcher :: "'cb EventDispatcher"

definition Storage_init :: "('v, 'cb) Storage" where
  "Storage_init = \<lparr>members = set_empty, items = Map.empty,
     createEventDispatcher = EventDispatcher_init,
     updateEventDispatcher = EventDispatcher_init,
     removeEventDispatcher = EventDispatcher_init\<rparr>"

definition Storage_erase :: "Entity \<Rightarrow> ('v, 'cb) Storage \<Rightarrow> ('v, 'cb) Storage" where
  "Storage_erase entity st =
     st\<lparr>items := (items st)(entity := None), members := set_erase entity (members st)\<rparr>"

definition insert_or_assign :: "Entity \<Rightarrow> 'v \<Rightarrow> ('v, 'cb) Storage \<Rightarrow> ('v, 'cb) Storage" where
  "insert_or_assign entity component st =
     st\<lparr>items := (items st)(entity \<mapsto> component), members := set_insert entity (members st)\<rparr>"

definition Storage_contains :: "('v, 'cb) Storage \<Rightarrow> Entity \<Rightarrow> bool" where
  "Storage_contains st entity = (items st entity \<noteq> None)"

definition Storage_at :: "('v, 'cb) Storage \<Rightarrow> Entity \<Rightarrow> error + 'v" where
  "Storage_at st entity =
     (case items st entity of None \<Rightarrow> Inl out_of_range | Some component \<Rightarrow> Inr component)"

section \<open>The world\<close>

text \<open>
  Component types are identified by a key of type \<open>'t\<close> (the \<^verbatim>\<open>std::type_index\<close>), and
  component values of all types live in \<open>'v\<close>. \<^verbatim>\<open>nextEntityId\<close> is an \<^verbatim>\<open>unsigned\<close>:
  incrementing it wraps at \<open>2 ^ 32\<close>.
\<close>

record ('t, 'v, 'cb) World =
  nextEntityId :: "32 word"
  entities :: entity_set
  componentStorage :: "'t \<rightharpoonup> ('v, 'cb) Storage"

definition World_init :: "('t, 'v, 'cb) World" where
  "World_init = \<lparr>nextEntityId = 0, entities = set_empty, componentStorage = Map.empty\<rparr>"

definition hasStorage :: "'t \<Rightarrow> ('t, 'v, 'cb) World \<Rightarrow> bool" where
  "hasStorage T w = (componentStorage w T \<noteq> None)"

definition ensureStorage :: "'t \<Rightarrow> ('t, 'v, 'cb) World \<Rightarrow> ('t, 'v, 'cb) World" where
  "ensureStorage T w =
     (if \<not> hasStorage T w then w\<lparr>componentStorage := (componentStorage w)(T \<mapsto> Storage_init)\<rparr>
      else w)"

text \<open>\<^verbatim>\<open>componentStorage.at(typeid(Component))\<close> throws when the type has no storage.\<close>

definition getStorage :: "'t \<Rightarrow> ('t, 'v, 'cb) World \<Rightarrow> error + ('v, 'cb) Storage" where
  "getStorage T w =
     (case componentStorage w T of None \<Rightarrow> Inl out_of_range | Some st \<Rightarrow> Inr st)"

text \<open>Writing through the reference that \<^verbatim>\<open>getStorage\<close> returned.\<close>

definition putStorage ::
  "'t \<Rightarrow> ('v, 'cb) Storage \<Rightarrow> ('t, 'v, 'cb) World \<Rightarrow> ('t, 'v, 'cb) World" where
  "putStorage T st w = w\<lparr>componentStorage := (componentStorage w)(T \<mapsto> st)\<rparr>"

definition has :: "'t \<Rightarrow> Entity \<Rightarrow> ('t, 'v, 'cb) World \<Rightarrow> error + bool" where
  "has T entity w =
     (if \<not> hasStorage T w then Inr False
      else case getStorage T w of
             Inl err \<Rightarrow> Inl err
           | Inr st \<Rightarrow> Inr (Storage_contains st entity))"

definition get :: "'t \<Rightarrow> Entity \<Rightarrow> ('t, 'v, 'cb) World \<Rightarrow> error + 'v" where
  "get T entity w =
     (case getStorage T w of Inl err \<Rightarrow> Inl err | Inr st \<Rightarrow> Storage_at st entity)"

definition onCreate ::
  "'t \<Rightarrow> ('t, 'v, 'cb) World \<Rightarrow> error + ('cb EventDispatcher \<times> ('t, 'v, 'cb) World)" where
  "onCreate T w =
     (let w' = ensureStorage T w in
      case getStorage T w' of
        Inl err \<Rightarrow> Inl err
      | Inr st \<Rightarrow> Inr (createEventDispatcher st, w'))"

definition onUpdate ::
  "'t \<Rightarrow> ('t, 'v, 'cb) World \<Rightarrow> error + ('cb EventDispatcher \<times> ('t, 'v, 'cb) World)" where
  "onUpdate T w =
     (let w' = ensureStorage T w in
      case getStorage T w' of
        Inl err \<Rightarrow> Inl err
      | Inr st \<Rightarrow> Inr (updateEventDispatcher st, w'))"

definition onRemove ::
  "'t \<Rightarrow> ('t, 'v, 'cb) World \<Rightarrow> error + ('cb EventDispatcher \<times> ('t, 'v, 'cb) World)" where
  "onRemove T w =
     (let w' = ensureStorage T w in
      case getStorage T w' of
        Inl err \<Rightarrow> Inl err
      | Inr st \<Rightarrow> Inr (removeEventDispatcher st, w'))"

text \<open>
  The operations that publish work on the pair of the world and the environment the
  callbacks captured.
\<close>

definition assign ::
  "('cb \<Rightarrow> Entity \<Rightarrow> ('t, 'v, 'cb) World \<times> 'x \<Rightarrow> ('t, 'v, 'cb) World \<times> 'x) \<Rightarrow>
   't \<Rightarrow> Entity \<Rightarrow> 'v \<Rightarrow> ('t, 'v, 'cb) World \<times> 'x \<Rightarrow> error + ('t, 'v, 'cb) World \<times> 'x" where
  "assign run T entity component s =
     (let w1 = ensureStorage T (fst s) in
      case has T entity w1 of
        Inl err \<Rightarrow> Inl err
      | Inr held \<Rightarrow>
          let isCreated = \<not> held in
          case getStorage T w1 of
            Inl err \<Rightarrow> Inl err
          | Inr st \<Rightarrow>
              let w2 = putStorage T (insert_or_assign entity component st) w1 in
              if isCreated then
                (case onCreate T w2 of
                   Inl err \<Rightarrow> Inl err
                 | Inr (d, w3) \<Rightarrow> Inr (publish run d entity (w3, snd s)))
              else
                (case onUpdate T w2 of
                   Inl err \<Rightarrow> Inl err
                 | Inr (d, w3) \<Rightarrow> Inr (publish run d entity (w3, snd s))))"

text \<open>
  \<^verbatim>\<open>transform\<close> replaces the component by \<open>f\<close> of it; \<^verbatim>\<open>patch\<close> lets \<open>f\<close> change it in
  place, which for the stored value is the same: \<open>f\<close> gives the new contents.
\<close>

definition transform ::
  "('cb \<Rightarrow> Entity \<Rightarrow> ('t, 'v, 'cb) World \<times> 'x \<Rightarrow> ('t, 'v, 'cb) World \<times> 'x) \<Rightarrow>
   't \<Rightarrow> Entity \<Rightarrow> ('v \<Rightarrow> 'v) \<Rightarrow> ('t, 'v, 'cb) World \<times> 'x \<Rightarrow>
   error + ('t, 'v, 'cb) World \<times> 'x" where
  "transform run T entity f s =
     (case getStorage T (fst s) of
        Inl err \<Rightarrow> Inl err
      | Inr st \<Rightarrow>
          (case Storage_at st entity of
             Inl err \<Rightarrow> Inl err
           | Inr component \<Rightarrow>
               let w1 = putStorage T (st\<lparr>items := (items st)(entity \<mapsto> f component)\<rparr>) (fst s) in
               case onUpdate T w1 of
                 Inl err \<Rightarrow> Inl err
               | Inr (d, w2) \<Rightarrow> Inr (publish run d entity (w2, snd s))))"

definition patch ::
  "('cb \<Rightarrow> Entity \<Rightarrow> ('t, 'v, 'cb) World \<times> 'x \<Rightarrow> ('t, 'v, 'cb) World \<times> 'x) \<Rightarrow>
   't \<Rightarrow> Entity \<Rightarrow> ('v \<Rightarrow> 'v) \<Rightarrow> ('t, 'v, 'cb) World \<times> 'x \<Rightarrow>
   error + ('t, 'v, 'cb) World \<times> 'x" where
  "patch run T entity f s =
     (case getStorage T (fst s) of
        Inl err \<Rightarrow> Inl err
      | Inr st \<Rightarrow>
          (case Storage_at st entity of
             Inl err \<Rightarrow> Inl err
           | Inr component \<Rightarrow>
               let w1 = putStorage T (st\<lparr>items := (items st)(entity \<mapsto> f component)\<rparr>) (fst s) in
               case onUpdate T w1 of
                 Inl err \<Rightarrow> Inl err
               | Inr (d, w2) \<Rightarrow> Inr (publish run d entity (w2, snd s))))"

definition remove ::
  "('cb \<Rightarrow> Entity \<Rightarrow> ('t, 'v, 'cb) World \<times> 'x \<Rightarrow> ('t, 'v, 'cb) World \<times> 'x) \<Rightarrow>
   't \<Rightarrow> Entity \<Rightarrow> ('t, 'v, 'cb) World \<times> 'x \<Rightarrow> error + ('t, 'v, 'cb) World \<times> 'x" where
  "remove run T entity s =
     (case onRemove T (fst s) of
        Inl err \<Rightarrow> Inl err
      | Inr (d, w1) \<Rightarrow>
          let s2 = publish run d entity (w1, snd s) in
          case getStorage T (fst s2) of
            Inl err \<Rightarrow> Inl err
          | Inr st \<Rightarrow> Inr (putStorage T (Storage_erase entity st) (fst s2), snd s2))"

definition World_size :: "('t, 'v, 'cb) World \<Rightarrow> nat" where
  "World_size w = set_size (entities w)"

definition createEntity :: "('t, 'v, 'cb) World \<Rightarrow> Entity \<times> ('t, 'v, 'cb) World" where
  "createEntity w =
     (let newEntity = Entity (nextEntityId w) in
      (newEntity, w\<lparr>nextEntityId := nextEntityId w + 1,
                    entities := set_insert newEntity (entities w)\<rparr>))"

definition destroyEntity :: "Entity \<Rightarrow> ('t, 'v, 'cb) World \<Rightarrow> ('t, 'v, 'cb) World" where
  "destroyEntity entity w =
     w\<lparr>componentStorage := (\<lambda>T. map_option (Storage_erase entity) (componentStorage w T)),
       entities := set_erase entity (entities w)\<rparr>"

section \<open>Views\<close>

text \<open>
  \<^verbatim>\<open>View(Storage<Components>... storages_)\<close> takes every storage by value and moves it
  into a map of its own: a view owns copies of the storages it was built from. That map
  is unordered, and \<^verbatim>\<open>each\<close>, \<^verbatim>\<open>begin\<close> and \<^verbatim>\<open>end\<close> scan the membership set of the entry
  that \<^verbatim>\<open>storages.begin()\<close> yields. Which key that is, C++ leaves open; the model takes
  it as the argument \<open>b\<close> of the constructor (field \<open>first\<close>): any of the requested types.
  \<^verbatim>\<open>insert\<close> keeps the entry of a key that is already present.
\<close>

record ('t, 'v, 'cb) View =
  Components :: "'t list"
  first :: "'t"
  storages :: "'t \<rightharpoonup> ('v, 'cb) Storage"

definition View_ctor ::
  "'t \<Rightarrow> 't list \<Rightarrow> ('v, 'cb) Storage list \<Rightarrow> ('t, 'v, 'cb) View" where
  "View_ctor b Ts sts =
     \<lparr>Components = Ts, first = b,
      storages = fold (\<lambda>(T, st) m. if m T \<noteq> None then m else m(T \<mapsto> st)) (zip Ts sts) Map.empty\<rparr>"

fun getStorages :: "'t list \<Rightarrow> ('t, 'v, 'cb) World \<Rightarrow> error + ('v, 'cb) Storage list" where
  "getStorages [] w = Inr []"
| "getStorages (T # Ts) w =
     (case getStorage T w of
        Inl err \<Rightarrow> Inl err
      | Inr st \<Rightarrow>
          (case getStorages Ts w of Inl err \<Rightarrow> Inl err | Inr sts \<Rightarrow> Inr (st # sts)))"

definition view ::
  "'t \<Rightarrow> 't list \<Rightarrow> ('t, 'v, 'cb) World \<Rightarrow> error + ('t, 'v, 'cb) View" where
  "view b Ts w =
     (if \<not> list_all (\<lambda>T. hasStorage T w) Ts
      then Inr (View_ctor b Ts (map (\<lambda>T. Storage_init) Ts))
      else case getStorages Ts w of
             Inl err \<Rightarrow> Inl err
           | Inr sts \<Rightarrow> Inr (View_ctor b Ts sts))"

text \<open>
  \<^verbatim>\<open>View::getStorage\<close> dereferences \<^verbatim>\<open>storages[typeid(Component)]\<close>, a null pointer when the
  key is missing; \<^verbatim>\<open>storages.begin()->second\<close> is not an entry when the map is empty.
\<close>

definition View_getStorage :: "'t \<Rightarrow> ('t, 'v, 'cb) View \<Rightarrow> error + ('v, 'cb) Storage" where
  "View_getStorage T vw =
     (case storages vw T of None \<Rightarrow> Inl undefined_behaviour | Some st \<Rightarrow> Inr st)"

definition View_base :: "('t, 'v, 'cb) View \<Rightarrow> error + ('v, 'cb) Storage" where
  "View_base vw =
     (case storages vw (first vw) of None \<Rightarrow> Inl undefined_behaviour | Some st \<Rightarrow> Inr st)"

text \<open>The fold \<^verbatim>\<open>(getStorage<Components>().contains(entity) && ...)\<close>, left to right.\<close>

fun all_contain :: "('t, 'v, 'cb) View \<Rightarrow> 't list \<Rightarrow> Entity \<Rightarrow> error + bool" where
  "all_contain vw [] entity = Inr True"
| "all_contain vw (T # Ts) entity =
     (case View_getStorage T vw of
        Inl err \<Rightarrow> Inl err
      | Inr st \<Rightarrow> if Storage_contains st entity then all_contain vw Ts entity else Inr False)"

text \<open>The pack \<^verbatim>\<open>getStorage<Components>().at(entity)...\<close>.\<close>

fun all_at :: "('t, 'v, 'cb) View \<Rightarrow> 't list \<Rightarrow> Entity \<Rightarrow> error + 'v list" where
  "all_at vw [] entity = Inr []"
| "all_at vw (T # Ts) entity =
     (case View_getStorage T vw of
        Inl err \<Rightarrow> Inl err
      | Inr st \<Rightarrow>
          (case Storage_at st entity of
             Inl err \<Rightarrow> Inl err
           | Inr component \<Rightarrow>
               (case all_at vw Ts entity of
                  Inl err \<Rightarrow> Inl err
                | Inr components \<Rightarrow> Inr (component # components))))"

text \<open>
  The callable of \<^verbatim>\<open>each\<close> gets the entity and its components and acts on a state \<open>'s\<close>
  of the caller (which may hold the world, when the callable captured it).
\<close>

fun each_loop ::
  "('t, 'v, 'cb) View \<Rightarrow> (Entity \<Rightarrow> 'v list \<Rightarrow> 's \<Rightarrow> 's) \<Rightarrow> Entity list \<Rightarrow> 's \<Rightarrow> error + 's" where
  "each_loop vw f [] s = Inr s"
| "each_loop vw f (entity # rest) s =
     (case all_contain vw (Components vw) entity of
        Inl err \<Rightarrow> Inl err
      | Inr ok \<Rightarrow>
          if ok then
            (case all_at vw (Components vw) entity of
               Inl err \<Rightarrow> Inl err
             | Inr components \<Rightarrow> each_loop vw f rest (f entity components s))
          else each_loop vw f rest s)"

definition each ::
  "('t, 'v, 'cb) View \<Rightarrow> (Entity \<Rightarrow> 'v list \<Rightarrow> 's \<Rightarrow> 's) \<Rightarrow> 's \<Rightarrow> error + 's" where
  "each vw f s =
     (case View_base vw of
        Inl err \<Rightarrow> Inl err
      | Inr base \<Rightarrow> each_loop vw f (elements (members base)) s)"

subsection \<open>The iterator\<close>

text \<open>
  A \<^verbatim>\<open>std::set<Entity>::iterator\<close> into the scanned membership set is a position in its
  ascending element sequence; the end iterator is the position one past the last.
  Reading the element at a position that is not before the end is undefined.
\<close>

record Iterator =
  entityIterator :: nat
  endIterator :: nat

definition set_deref :: "entity_set \<Rightarrow> nat \<Rightarrow> error + Entity" where
  "set_deref s i = (if i < set_size s then Inr (elements s ! i) else Inl undefined_behaviour)"

definition View_begin :: "('t, 'v, 'cb) View \<Rightarrow> error + Iterator" where
  "View_begin vw =
     (case View_base vw of
        Inl err \<Rightarrow> Inl err
      | Inr base \<Rightarrow> Inr \<lparr>entityIterator = 0, endIterator = set_size (members base)\<rparr>)"

definition View_end :: "('t, 'v, 'cb) View \<Rightarrow> error + Iterator" where
  "View_end vw =
     (case View_base vw of
        Inl err \<Rightarrow> Inl err
      | Inr base \<Rightarrow>
          Inr \<lparr>entityIterator = set_size (members base), endIterator = set_size (members base)\<rparr>)"

text \<open>
  \<^verbatim>\<open>operator*\<close>. The source returns \<^verbatim>\<open>std::tie(entity, at(entity)...)\<close> where \<^verbatim>\<open>entity\<close> is a
  local copy of \<^verbatim>\<open>*entityIterator\<close>: the \<^verbatim>\<open>Entity&\<close> of the tuple refers to a variable that is
  gone when \<^verbatim>\<open>operator*\<close> has returned, so reading the entity out of the tuple is undefined
  in C++. What is yielded here is the value that the local variable had. The statements
  on iteration below are about the throw of \<^verbatim>\<open>at\<close> inside \<^verbatim>\<open>operator*\<close> and the read at the end
  position inside \<^verbatim>\<open>operator++\<close>, both of which happen before any tuple is read.
\<close>

definition Iterator_deref ::
  "('t, 'v, 'cb) View \<Rightarrow> Iterator \<Rightarrow> error + Entity \<times> 'v list" where
  "Iterator_deref vw it =
     (case View_base vw of
        Inl err \<Rightarrow> Inl err
      | Inr base \<Rightarrow>
          (case set_deref (members base) (entityIterator it) of
             Inl err \<Rightarrow> Inl err
           | Inr entity \<Rightarrow>
               (case all_at vw (Components vw) entity of
                  Inl err \<Rightarrow> Inl err
                | Inr components \<Rightarrow> Inr (entity, components))))"

text \<open>\<^verbatim>\<open>operator!=\<close>\<close>

definition Iterator_neq :: "Iterator \<Rightarrow> Iterator \<Rightarrow> bool" where
  "Iterator_neq a b = (entityIterator a \<noteq> entityIterator b)"

text \<open>
  \<^verbatim>\<open>operator++\<close>: the loop increments the position and reads the element there before it
  looks at the end iterator again.
\<close>

function Iterator_inc :: "('t, 'v, 'cb) View \<Rightarrow> Iterator \<Rightarrow> error + Iterator" where
  "Iterator_inc vw it =
     (if entityIterator it \<noteq> endIterator it then
        (case View_base vw of
           Inl err \<Rightarrow> Inl err
         | Inr base \<Rightarrow>
             (case set_deref (members base) (entityIterator it + 1) of
                Inl err \<Rightarrow> Inl err
              | Inr entity \<Rightarrow>
                  (case all_contain vw (Components vw) entity of
                     Inl err \<Rightarrow> Inl err
                   | Inr ok \<Rightarrow>
                       if ok then Inr (it\<lparr>entityIterator := entityIterator it + 1\<rparr>)
                       else Iterator_inc vw (it\<lparr>entityIterator := entityIterator it + 1\<rparr>))))
      else Inr it)"
  by pat_completeness auto

termination
proof (relation "measure (\<lambda>(vw, it).
    (case View_base vw of Inl err \<Rightarrow> 0 | Inr base \<Rightarrow> set_size (members base)) - entityIterator it)")
  show "wf (measure (\<lambda>(vw :: ('t, 'v, 'cb) View, it :: Iterator).
    (case View_base vw of Inl err \<Rightarrow> 0 | Inr base \<Rightarrow> set_size (members base)) - entityIterator it))"
    by simp
next
  fix vw :: "('t, 'v, 'cb) View" and it :: Iterator and base entity ok
  assume "View_base vw = Inr base"
    and "set_deref (members base) (entityIterator it + 1) = Inr entity"
  then show "((vw, it\<lparr>entityIterator := entityIterator it + 1\<rparr>), (vw, it))
    \<in> measure (\<lambda>(vw, it).
        (case View_base vw of Inl err \<Rightarrow> 0 | Inr base \<Rightarrow> set_size (members base))
          - entityIterator it)"
    by (auto simp: set_deref_def split: if_splits)
qed

text \<open>
  The range-based \<^verbatim>\<open>for\<close> over a view: \<^verbatim>\<open>for (it = begin(); it != end(); ++it) body(*it)\<close>.
  The result is \<open>None\<close> when the loop does not end.
\<close>

partial_function (option) for_loop ::
  "('t, 'v, 'cb) View \<Rightarrow> Iterator \<Rightarrow> (Entity \<times> 'v list \<Rightarrow> 's \<Rightarrow> 's) \<Rightarrow> 's \<Rightarrow> (error + 's) option"
  where
  "for_loop vw it body s =
     (case View_end vw of
        Inl err \<Rightarrow> Some (Inl err)
      | Inr e \<Rightarrow>
          if Iterator_neq it e then
            (case Iterator_deref vw it of
               Inl err \<Rightarrow> Some (Inl err)
             | Inr item \<Rightarrow>
                 (case Iterator_inc vw it of
                    Inl err \<Rightarrow> Some (Inl err)
                  | Inr it' \<Rightarrow> for_loop vw it' body (body item s)))
          else Some (Inr s))"

definition range_for ::
  "('t, 'v, 'cb) View \<Rightarrow> (Entity \<times> 'v list \<Rightarrow> 's \<Rightarrow> 's) \<Rightarrow> 's \<Rightarrow> (error + 's) option" where
  "range_for vw body s =
     (case View_begin vw of
        Inl err \<Rightarrow> Some (Inl err)
      | Inr it \<Rightarrow> for_loop vw it body s)"

section \<open>Client calls\<close>

text \<open>
  A client drives a world by a sequence of calls. \<^verbatim>\<open>world.onCreate<T>().connect(f)\<close> and
  its siblings reach a dispatcher through the reference the accessor returns and change
  it in place.
\<close>

datatype phase = OnCreate | OnUpdate | OnRemove

definition dispatcher :: "phase \<Rightarrow> ('v, 'cb) Storage \<Rightarrow> 'cb EventDispatcher" where
  "dispatcher ph st =
     (case ph of OnCreate \<Rightarrow> createEventDispatcher st
               | OnUpdate \<Rightarrow> updateEventDispatcher st
               | OnRemove \<Rightarrow> removeEventDispatcher st)"

definition put_dispatcher ::
  "phase \<Rightarrow> 'cb EventDispatcher \<Rightarrow> ('v, 'cb) Storage \<Rightarrow> ('v, 'cb) Storage" where
  "put_dispatcher ph d st =
     (case ph of OnCreate \<Rightarrow> st\<lparr>createEventDispatcher := d\<rparr>
               | OnUpdate \<Rightarrow> st\<lparr>updateEventDispatcher := d\<rparr>
               | OnRemove \<Rightarrow> st\<lparr>removeEventDispatcher := d\<rparr>)"

definition on ::
  "phase \<Rightarrow> 't \<Rightarrow> ('t, 'v, 'cb) World \<Rightarrow> error + ('cb EventDispatcher \<times> ('t, 'v, 'cb) World)" where
  "on ph T w = (case ph of OnCreate \<Rightarrow> onCreate T w | OnUpdate \<Rightarrow> onUpdate T w | OnRemove \<Rightarrow> onRemove T w)"

datatype ('t, 'v, 'cb) call =
    CreateEntity
  | DestroyEntity Entity
  | Assign 't Entity 'v
  | Transform 't Entity "'v \<Rightarrow> 'v"
  | Patch 't Entity "'v \<Rightarrow> 'v"
  | Remove 't Entity
  | Connect phase 't 'cb
  | Disconnect phase 't "32 word"

datatype ret = Nothing | NewEntity Entity | CallbackId "32 word"

fun exec ::
  "('cb \<Rightarrow> Entity \<Rightarrow> ('t, 'v, 'cb) World \<times> 'x \<Rightarrow> ('t, 'v, 'cb) World \<times> 'x) \<Rightarrow>
   ('t, 'v, 'cb) call \<Rightarrow> ('t, 'v, 'cb) World \<times> 'x \<Rightarrow>
   error + ret \<times> ('t, 'v, 'cb) World \<times> 'x" where
  "exec run CreateEntity s =
     (let (e, w') = createEntity (fst s) in Inr (NewEntity e, (w', snd s)))"
| "exec run (DestroyEntity e) s = Inr (Nothing, (destroyEntity e (fst s), snd s))"
| "exec run (Assign T e c) s = map_sum id (Pair Nothing) (assign run T e c s)"
| "exec run (Transform T e f) s = map_sum id (Pair Nothing) (transform run T e f s)"
| "exec run (Patch T e f) s = map_sum id (Pair Nothing) (patch run T e f s)"
| "exec run (Remove T e) s = map_sum id (Pair Nothing) (remove run T e s)"
| "exec run (Connect ph T f) s =
     (case on ph T (fst s) of
        Inl err \<Rightarrow> Inl err
      | Inr (d, w1) \<Rightarrow>
          (case getStorage T w1 of
             Inl err \<Rightarrow> Inl err
           | Inr st \<Rightarrow>
               let (id, d') = connect f d in
               Inr (CallbackId id, (putStorage T (put_dispatcher ph d' st) w1, snd s))))"
| "exec run (Disconnect ph T callbackId) s =
     (case on ph T (fst s) of
        Inl err \<Rightarrow> Inl err
      | Inr (d, w1) \<Rightarrow>
          (case getStorage T w1 of
             Inl err \<Rightarrow> Inl err
           | Inr st \<Rightarrow>
               Inr (Nothing, (putStorage T (put_dispatcher ph (disconnect callbackId d) st) w1, snd s))))"

text \<open>A sequence of calls stops at the first one that throws.\<close>

fun exec_all ::
  "('cb \<Rightarrow> Entity \<Rightarrow> ('t, 'v, 'cb) World \<times> 'x \<Rightarrow> ('t, 'v, 'cb) World \<times> 'x) \<Rightarrow>
   ('t, 'v, 'cb) call list \<Rightarrow> ('t, 'v, 'cb) World \<times> 'x \<Rightarrow>
   error + ret list \<times> ('t, 'v, 'cb) World \<times> 'x" where
  "exec_all run [] s = Inr ([], s)"
| "exec_all run (c # cs) s =
     (case exec run c s of
        Inl err \<Rightarrow> Inl err
      | Inr (r, s1) \<Rightarrow>
          (case exec_all run cs s1 of
             Inl err \<Rightarrow> Inl err
           | Inr (rs, s2) \<Rightarrow> Inr (r # rs, s2)))"

section \<open>Notions of the specification and example worlds\<close>

text \<open>
  The invariant of a storage: the key set of its mapping and its membership set are the
  same set. A world has it when every storage in existence has it.
\<close>

definition Storage_sync :: "('v, 'cb) Storage \<Rightarrow> bool" where
  "Storage_sync st = (dom (items st) = set (elements (members st)))"

definition storages_in_sync :: "('t, 'v, 'cb) World \<Rightarrow> bool" where
  "storages_in_sync w = (\<forall>T st. componentStorage w T = Some st \<longrightarrow> Storage_sync st)"

text \<open>What the callbacks of the client are assumed to do: keep a property \<open>P\<close> of the world.\<close>

definition callbacks_keep ::
  "(('t, 'v, 'cb) World \<Rightarrow> bool) \<Rightarrow>
   ('cb \<Rightarrow> Entity \<Rightarrow> ('t, 'v, 'cb) World \<times> 'x \<Rightarrow> ('t, 'v, 'cb) World \<times> 'x) \<Rightarrow> bool" where
  "callbacks_keep P run = (\<forall>cb e s. P (fst s) \<longrightarrow> P (fst (run cb e s)))"

text \<open>The storage a view of \<open>w\<close> holds for a requested type.\<close>

definition copied :: "'t list \<Rightarrow> ('t, 'v, 'cb) World \<Rightarrow> 't \<Rightarrow> ('v, 'cb) Storage" where
  "copied Ts w T =
     (if list_all (\<lambda>T. hasStorage T w) Ts then the (componentStorage w T) else Storage_init)"

text \<open>
  The entities that hold every component type of a view in the view's storages, and the
  components of such an entity, in the order of the types.
\<close>

definition holder :: "('t, 'v, 'cb) View \<Rightarrow> Entity \<Rightarrow> bool" where
  "holder vw e = (\<forall>T\<in>set (Components vw). \<exists>st. storages vw T = Some st \<and> items st e \<noteq> None)"

definition values_of :: "('t, 'v, 'cb) View \<Rightarrow> Entity \<Rightarrow> 'v list" where
  "values_of vw e = map (\<lambda>T. the (items (the (storages vw T)) e)) (Components vw)"

text \<open>
  A world with entities 0 and 1, where entity 0 holds the \<^verbatim>\<open>int\<close> 5 and the \<^verbatim>\<open>float\<close> 7 and
  entity 1 holds the \<^verbatim>\<open>int\<close> 9. (Values of every component type are integers here.)
\<close>

definition example_world :: "(string, int, unit) World" where
  "example_world = fst (snd (projr (exec_all (\<lambda>cb e s. s)
      [CreateEntity, CreateEntity, Assign ''int'' (Entity 0) 5, Assign ''float'' (Entity 0) 7,
       Assign ''int'' (Entity 1) 9] (World_init, ()))))"

text \<open>
  A callable for \<^verbatim>\<open>each\<close> that captured the world: it removes the \<^verbatim>\<open>int\<close> of entity 1 and
  records its arguments and what \<^verbatim>\<open>world.has<int>(e)\<close> says then.
\<close>

definition remove_int_of_1 ::
  "Entity \<Rightarrow> int list \<Rightarrow>
   (string, int, unit) World \<times> (Entity \<times> int list \<times> (error + bool)) list \<Rightarrow>
   (string, int, unit) World \<times> (Entity \<times> int list \<times> (error + bool)) list" where
  "remove_int_of_1 e cs s =
     (case remove (\<lambda>cb e s. s) ''int'' (Entity 1) (fst s, ()) of
        Inl err \<Rightarrow> s
      | Inr (w', u) \<Rightarrow> (w', snd s @ [(e, cs, has ''int'' e w')]))"

text \<open>
  The callback \<^verbatim>\<open>[](World& w, Entity e) { w.assign<int>(e, 99); }\<close>, for worlds where
  nothing is connected to the update event of \<^verbatim>\<open>int\<close> (the inner \<^verbatim>\<open>assign\<close> then runs no
  callback), and a world with one entity where it is connected to the create event of
  \<^verbatim>\<open>int\<close>.
\<close>

definition overwriting ::
  "unit \<Rightarrow> Entity \<Rightarrow> (string, int, unit) World \<times> unit \<Rightarrow> (string, int, unit) World \<times> unit" where
  "overwriting cb e s =
     (case assign (\<lambda>cb e s. s) ''int'' e 99 s of Inl err \<Rightarrow> s | Inr s' \<Rightarrow> s')"

definition subscribed_world :: "(string, int, unit) World" where
  "subscribed_world = fst (snd (projr (exec_all (\<lambda>cb e s. s)
      [CreateEntity, Connect OnCreate ''int'' ()] (World_init, ()))))"

text \<open>
  The callbacks subscribed to the lifecycle event \<open>ph\<close> of component type \<open>T\<close>, and
  firing that event with the world and the entity \<open>e\<close>: every callback subscribed to it is
  called once with them.
\<close>

definition subscribers :: "phase \<Rightarrow> 't \<Rightarrow> ('t, 'v, 'cb) World \<Rightarrow> 'cb list" where
  "subscribers ph T w =
     (case componentStorage w T of
        None \<Rightarrow> []
      | Some st \<Rightarrow> map snd (callbacks (dispatcher ph st)))"

definition fire ::
  "('cb \<Rightarrow> Entity \<Rightarrow> ('t, 'v, 'cb) World \<times> 'x \<Rightarrow> ('t, 'v, 'cb) World \<times> 'x) \<Rightarrow>
   phase \<Rightarrow> 't \<Rightarrow> Entity \<Rightarrow> ('t, 'v, 'cb) World \<times> 'x \<Rightarrow> ('t, 'v, 'cb) World \<times> 'x" where
  "fire run ph T e s = fold (\<lambda>cb. run cb e) (subscribers ph T (fst s)) s"

text \<open>
  Callbacks that record their name, the entity and what \<^verbatim>\<open>world.has<int>(entity)\<close> says
  when they are called, a world with one entity where one of them is connected to each
  event of \<^verbatim>\<open>int\<close>, and that world after \<^verbatim>\<open>assign<int>(entity, 5)\<close>.
\<close>

definition observing ::
  "string \<Rightarrow> Entity \<Rightarrow>
   (string, int, string) World \<times> (string \<times> Entity \<times> (error + bool)) list \<Rightarrow>
   (string, int, string) World \<times> (string \<times> Entity \<times> (error + bool)) list" where
  "observing cb e s = (fst s, snd s @ [(cb, e, has ''int'' e (fst s))])"

definition observed_world :: "(string, int, string) World" where
  "observed_world = fst (snd (projr (exec_all observing
      [CreateEntity, Connect OnCreate ''int'' ''created'', Connect OnUpdate ''int'' ''updated'',
       Connect OnRemove ''int'' ''removed''] (World_init, []))))"

definition observed_world_5 :: "(string, int, string) World" where
  "observed_world_5 = fst (projr (assign observing ''int'' (Entity 0) 5 (observed_world, [])))"

text \<open>The world in which \<^verbatim>\<open>assign\<close> publishes.\<close>

definition stored :: "'t \<Rightarrow> Entity \<Rightarrow> 'v \<Rightarrow> ('t, 'v, 'cb) World \<Rightarrow> ('t, 'v, 'cb) World" where
  "stored T e v w =
     putStorage T
       (insert_or_assign e v (case componentStorage w T of None \<Rightarrow> Storage_init | Some st \<Rightarrow> st))
       (ensureStorage T w)"

text \<open>The identifiers that the \<^verbatim>\<open>createEntity\<close> calls of a sequence returned, in order.\<close>

fun created :: "ret list \<Rightarrow> Entity list" where
  "created [] = []"
| "created (NewEntity e # rs) = e # created rs"
| "created (r # rs) = created rs"

text \<open>Callbacks that neither create nor destroy entities.\<close>

definition callbacks_leave_entities ::
  "('cb \<Rightarrow> Entity \<Rightarrow> ('t, 'v, 'cb) World \<times> 'x \<Rightarrow> ('t, 'v, 'cb) World \<times> 'x) \<Rightarrow> bool" where
  "callbacks_leave_entities run =
     (\<forall>cb e s. nextEntityId (fst (run cb e s)) = nextEntityId (fst s)
        \<and> entities (fst (run cb e s)) = entities (fst s))"

text \<open>
  A world where entity 0 holds an \<^verbatim>\<open>int\<close> only and entity 1 a \<^verbatim>\<open>float\<close> only, and a world
  with a single entity that holds an \<^verbatim>\<open>int\<close>.
\<close>

definition disjoint_world :: "(string, int, unit) World" where
  "disjoint_world = fst (snd (projr (exec_all (\<lambda>cb e s. s)
      [CreateEntity, CreateEntity, Assign ''int'' (Entity 0) 5, Assign ''float'' (Entity 1) 7]
      (World_init, ()))))"

definition single_world :: "(string, int, unit) World" where
  "single_world = fst (snd (projr (exec_all (\<lambda>cb e s. s)
      [CreateEntity, Assign ''int'' (Entity 0) 5] (World_init, ()))))"

text \<open>
  A new world after \<^verbatim>\<open>assign<int>(Entity{42}, 1)\<close>: \<^verbatim>\<open>assign\<close> does not look at the live-entity
  set, so the entity 42, which no \<^verbatim>\<open>createEntity\<close> returned, holds an \<^verbatim>\<open>int\<close>.
\<close>

definition ghost_world :: "(string, int, unit) World" where
  "ghost_world = fst (snd (projr (exec_all (\<lambda>cb e s. s)
      [Assign ''int'' (Entity 42) 1] (World_init, ()))))"

text \<open>
  \<^verbatim>\<open>nextEntityId\<close> and the live-entity set are private: a callback changes them only by
  calling \<^verbatim>\<open>createEntity\<close> and \<^verbatim>\<open>destroyEntity\<close> on the world it is handed. \<open>calls_of cb e s\<close>
  lists those calls that the callback \<open>cb\<close> makes when it is run on \<open>s\<close> (the ones of the
  callbacks it sets off included), in order, and what is assumed of the callbacks is
  that they leave the counter and the live-entity set as these calls do.
\<close>

datatype lifecycle = Create | Destroy Entity

fun lifecycle_run ::
  "lifecycle list \<Rightarrow> ('t, 'v, 'cb) World \<Rightarrow> Entity list \<times> ('t, 'v, 'cb) World" where
  "lifecycle_run [] w = ([], w)"
| "lifecycle_run (Create # ls) w =
     (let (e, w1) = createEntity w; (es, w2) = lifecycle_run ls w1 in (e # es, w2))"
| "lifecycle_run (Destroy e # ls) w = lifecycle_run ls (destroyEntity e w)"

definition callbacks_by_calls ::
  "('cb \<Rightarrow> Entity \<Rightarrow> ('t, 'v, 'cb) World \<times> 'x \<Rightarrow> ('t, 'v, 'cb) World \<times> 'x) \<Rightarrow>
   ('cb \<Rightarrow> Entity \<Rightarrow> ('t, 'v, 'cb) World \<times> 'x \<Rightarrow> lifecycle list) \<Rightarrow> bool" where
  "callbacks_by_calls run calls_of =
     (\<forall>cb e s.
        nextEntityId (fst (run cb e s))
          = nextEntityId (snd (lifecycle_run (calls_of cb e s) (fst s)))
        \<and> entities (fst (run cb e s))
          = entities (snd (lifecycle_run (calls_of cb e s) (fst s))))"

text \<open>
  The identifiers that \<^verbatim>\<open>createEntity\<close> returned to the callbacks of one \<^verbatim>\<open>publish\<close>, the
  world in which \<^verbatim>\<open>transform\<close> and \<^verbatim>\<open>patch\<close> publish, and all identifiers that \<^verbatim>\<open>createEntity\<close>
  returned during one call and during a sequence of calls: to the client and to the
  callbacks, in the order of the calls.
\<close>

fun publish_ids ::
  "('cb \<Rightarrow> Entity \<Rightarrow> ('t, 'v, 'cb) World \<times> 'x \<Rightarrow> ('t, 'v, 'cb) World \<times> 'x) \<Rightarrow>
   ('cb \<Rightarrow> Entity \<Rightarrow> ('t, 'v, 'cb) World \<times> 'x \<Rightarrow> lifecycle list) \<Rightarrow>
   'cb list \<Rightarrow> Entity \<Rightarrow> ('t, 'v, 'cb) World \<times> 'x \<Rightarrow> Entity list" where
  "publish_ids run calls_of [] e s = []"
| "publish_ids run calls_of (cb # cbs) e s =
     fst (lifecycle_run (calls_of cb e s) (fst s)) @ publish_ids run calls_of cbs e (run cb e s)"

definition replaced ::
  "'t \<Rightarrow> Entity \<Rightarrow> ('v \<Rightarrow> 'v) \<Rightarrow> ('t, 'v, 'cb) World \<Rightarrow> ('t, 'v, 'cb) World" where
  "replaced T e f w =
     (case componentStorage w T of
        None \<Rightarrow> w
      | Some st \<Rightarrow>
          (case items st e of
             None \<Rightarrow> w
           | Some c \<Rightarrow> putStorage T (st\<lparr>items := (items st)(e \<mapsto> f c)\<rparr>) w))"

fun call_ids ::
  "('cb \<Rightarrow> Entity \<Rightarrow> ('t, 'v, 'cb) World \<times> 'x \<Rightarrow> ('t, 'v, 'cb) World \<times> 'x) \<Rightarrow>
   ('cb \<Rightarrow> Entity \<Rightarrow> ('t, 'v, 'cb) World \<times> 'x \<Rightarrow> lifecycle list) \<Rightarrow>
   ('t, 'v, 'cb) call \<Rightarrow> ('t, 'v, 'cb) World \<times> 'x \<Rightarrow> Entity list" where
  "call_ids run calls_of CreateEntity s = [fst (createEntity (fst s))]"
| "call_ids run calls_of (DestroyEntity e) s = []"
| "call_ids run calls_of (Assign T e v) s =
     publish_ids run calls_of
       (subscribers (if has T e (fst s) = Inr True then OnUpdate else OnCreate) T (fst s)) e
       (stored T e v (fst s), snd s)"
| "call_ids run calls_of (Transform T e f) s =
     publish_ids run calls_of (subscribers OnUpdate T (fst s)) e (replaced T e f (fst s), snd s)"
| "call_ids run calls_of (Patch T e f) s =
     publish_ids run calls_of (subscribers OnUpdate T (fst s)) e (replaced T e f (fst s), snd s)"
| "call_ids run calls_of (Remove T e) s =
     publish_ids run calls_of (subscribers OnRemove T (fst s)) e (ensureStorage T (fst s), snd s)"
| "call_ids run calls_of (Connect ph T f) s = []"
| "call_ids run calls_of (Disconnect ph T i) s = []"

fun issued ::
  "('cb \<Rightarrow> Entity \<Rightarrow> ('t, 'v, 'cb) World \<times> 'x \<Rightarrow> ('t, 'v, 'cb) World \<times> 'x) \<Rightarrow>
   ('cb \<Rightarrow> Entity \<Rightarrow> ('t, 'v, 'cb) World \<times> 'x \<Rightarrow> lifecycle list) \<Rightarrow>
   ('t, 'v, 'cb) call list \<Rightarrow> ('t, 'v, 'cb) World \<times> 'x \<Rightarrow> Entity list" where
  "issued run calls_of [] s = []"
| "issued run calls_of (c # cs) s =
     (case exec run c s of
        Inl err \<Rightarrow> []
      | Inr (r, s1) \<Rightarrow> call_ids run calls_of c s @ issued run calls_of cs s1)"

text \<open>
  From a world \<open>w\<close> to a world \<open>w'\<close> the identifiers \<open>ids\<close> were issued: they are the
  successive values of the counter, the counter has moved on by their number, and who
  is live in \<open>w'\<close> was live in \<open>w\<close> or is one of them.
\<close>

definition issues :: "('t, 'v, 'cb) World \<Rightarrow> Entity list \<Rightarrow> ('t, 'v, 'cb) World \<Rightarrow> bool" where
  "issues w ids w' =
     (nextEntityId w' = nextEntityId w + of_nat (length ids)
      \<and> (\<forall>i<length ids. ids ! i = Entity (nextEntityId w + of_nat i))
      \<and> (\<forall>e. set_contains (entities w') e \<longrightarrow> set_contains (entities w) e \<or> e \<in> set ids))"

text \<open>
  The callback \<^verbatim>\<open>[](World& w, Entity) { w.createEntity(); }\<close>, which makes the one call.
\<close>

definition spawning ::
  "unit \<Rightarrow> Entity \<Rightarrow> (string, int, unit) World \<times> unit \<Rightarrow> (string, int, unit) World \<times> unit" where
  "spawning cb e s = (snd (createEntity (fst s)), snd s)"

definition spawning_calls ::
  "unit \<Rightarrow> Entity \<Rightarrow> (string, int, unit) World \<times> unit \<Rightarrow> lifecycle list" where
  "spawning_calls cb e s = [Create]"

section \<open>Failure of the accessors\<close>

lemma getStorage_ensureStorage:
  "getStorage T (ensureStorage T w) =
     Inr (case componentStorage w T of None \<Rightarrow> Storage_init | Some st \<Rightarrow> st)"
  by (simp add: getStorage_def ensureStorage_def hasStorage_def split: option.splits)

lemma onUpdate_putStorage:
  "onUpdate T (putStorage T st w) = Inr (updateEventDispatcher st, putStorage T st w)"
  by (simp add: onUpdate_def ensureStorage_def hasStorage_def putStorage_def getStorage_def)

text \<open>
  C9. \<^verbatim>\<open>get\<close>, \<^verbatim>\<open>transform\<close> and \<^verbatim>\<open>patch\<close> fail, with \<^verbatim>\<open>out_of_range\<close>, exactly when the
  entity does not hold the component (a type without storage included), and succeed
  otherwise; \<^verbatim>\<open>has\<close> never fails: it is false when the type has no storage or the entity
  is absent from it, and true otherwise.
\<close>

theorem accessors_fail_iff_absent:
  fixes w :: "('t, 'v, 'cb) World"
  shows "(has T e w = Inr True \<or> has T e w = Inr False)
    \<and> (has T e w = Inr True) = (\<exists>st. componentStorage w T = Some st \<and> items st e \<noteq> None)
    \<and> (if has T e w = Inr True
       then (\<exists>c. get T e w = Inr c) \<and> (\<exists>s'. transform run T e f (w, x) = Inr s')
          \<and> (\<exists>s'. patch run T e f (w, x) = Inr s')
       else get T e w = Inl out_of_range \<and> transform run T e f (w, x) = Inl out_of_range
          \<and> patch run T e f (w, x) = Inl out_of_range)"
proof (cases "componentStorage w T")
  case None
  then show ?thesis
    by (simp add: has_def hasStorage_def get_def transform_def patch_def getStorage_def)
next
  case (Some st)
  show ?thesis
  proof (cases "items st e")
    case None
    with Some show ?thesis
      by (simp add: has_def hasStorage_def get_def transform_def patch_def getStorage_def
          Storage_contains_def Storage_at_def)
  next
    case (Some c)
    with \<open>componentStorage w T = Some st\<close> show ?thesis
      by (simp add: has_def hasStorage_def get_def transform_def patch_def getStorage_def
          Storage_contains_def Storage_at_def onUpdate_putStorage)
  qed
qed

theorem accessors_fail_iff_absent_witness:
  "has ''int'' (Entity 0) (World_init :: (string, int, unit) World) = Inr False
   \<and> get ''int'' (Entity 0) (World_init :: (string, int, unit) World) = Inl out_of_range
   \<and> transform (\<lambda>cb e s. s) ''int'' (Entity 0) (\<lambda>n. n + 1)
        (World_init :: (string, int, unit) World, ()) = Inl out_of_range
   \<and> patch (\<lambda>cb e s. s) ''int'' (Entity 0) (\<lambda>n. n + 1)
        (World_init :: (string, int, unit) World, ()) = Inl out_of_range
   \<and> has ''int'' (Entity 0) example_world = Inr True
   \<and> (\<exists>c. get ''int'' (Entity 0) example_world = Inr c)
   \<and> (\<exists>s'. transform (\<lambda>cb e s. s) ''int'' (Entity 0) (\<lambda>n. n + 1) (example_world, ()) = Inr s')
   \<and> (\<exists>s'. patch (\<lambda>cb e s. s) ''int'' (Entity 0) (\<lambda>n. n + 1) (example_world, ()) = Inr s')
   \<and> has ''float'' (Entity 1) example_world = Inr False
   \<and> get ''float'' (Entity 1) example_world = Inl out_of_range
   \<and> map_sum id (\<lambda>s. get ''int'' (Entity 0) (fst s))
        (transform (\<lambda>cb e s. s) ''int'' (Entity 0) (\<lambda>n. n + 1) (example_world, ()))
       = Inr (Inr 6)"
proof -
  have absent: "has ''int'' (Entity 0) (World_init :: (string, int, unit) World) = Inr False"
    and held: "has ''int'' (Entity 0) example_world = Inr True"
    and lacking: "has ''float'' (Entity 1) example_world = Inr False"
    and six: "map_sum id (\<lambda>s. get ''int'' (Entity 0) (fst s))
        (transform (\<lambda>cb e s. s) ''int'' (Entity 0) (\<lambda>n. n + 1) (example_world, ()))
       = Inr (Inr 6)"
    by code_simp+
  have "get ''int'' (Entity 0) (World_init :: (string, int, unit) World) = Inl out_of_range
      \<and> transform (\<lambda>cb e s. s) ''int'' (Entity 0) (\<lambda>n. n + 1)
          (World_init :: (string, int, unit) World, ()) = Inl out_of_range
      \<and> patch (\<lambda>cb e s. s) ''int'' (Entity 0) (\<lambda>n. n + 1)
          (World_init :: (string, int, unit) World, ()) = Inl out_of_range"
    using absent accessors_fail_iff_absent [where T = "''int''" and e = "Entity 0"
      and w = "World_init :: (string, int, unit) World" and run = "\<lambda>cb e s. s"
      and f = "\<lambda>n. n + 1" and x = "()"]
    by (simp only: sum.inject if_False simp_thms)
  moreover have "(\<exists>c. get ''int'' (Entity 0) example_world = Inr c)
      \<and> (\<exists>s'. transform (\<lambda>cb e s. s) ''int'' (Entity 0) (\<lambda>n. n + 1) (example_world, ()) = Inr s')
      \<and> (\<exists>s'. patch (\<lambda>cb e s. s) ''int'' (Entity 0) (\<lambda>n. n + 1) (example_world, ()) = Inr s')"
    using held accessors_fail_iff_absent [where T = "''int''" and e = "Entity 0"
      and w = example_world and run = "\<lambda>cb e s. s" and f = "\<lambda>n. n + 1" and x = "()"]
    by (simp only: if_True simp_thms)
  moreover have "get ''float'' (Entity 1) example_world = Inl out_of_range"
    using lacking accessors_fail_iff_absent [where T = "''float''" and e = "Entity 1"
      and w = example_world and run = "\<lambda>cb e s. s" and f = "\<lambda>n. n + 1" and x = "()"]
    by (simp only: sum.inject if_False simp_thms)
  ultimately show ?thesis
    using absent held lacking six by blast
qed

section \<open>Facts about the entity set\<close>

lemma distinct_elements: "distinct (elements s)"
proof -
  have "sorted_wrt (\<lambda>a b. entityId a < entityId b) (elements s)"
    using elements [of s] by simp
  then have "sorted_wrt (\<noteq>) (elements s)"
    by (rule sorted_wrt_mono_rel [rotated]) auto
  then show ?thesis
    by (simp add: distinct_conv_nth sorted_wrt_iff_nth_less) (metis nat_neq_iff)
qed

lemma set_contains_empty [simp]: "\<not> set_contains set_empty e"
  by (simp add: set_contains_def set_empty.rep_eq)

lemma set_contains_insert [simp]:
  "set_contains (set_insert e s) x = (x = e \<or> set_contains s x)"
  by (simp add: set_contains_def set_insert.rep_eq set_insert_sorted)

lemma set_contains_erase [simp]:
  "set_contains (set_erase e s) x = (x \<noteq> e \<and> set_contains s x)"
  by (auto simp: set_contains_def set_erase.rep_eq)

lemma length_filter_neq:
  "distinct xs \<Longrightarrow>
   length (filter (\<lambda>x. x \<noteq> e) xs) = (if e \<in> set xs then length xs - 1 else length xs)"
  by (induction xs) (auto dest: length_pos_if_in_set)

lemma set_size_erase:
  "set_size (set_erase e s) = (if set_contains s e then set_size s - 1 else set_size s)"
  by (simp add: set_size_def set_contains_def set_erase.rep_eq length_filter_neq distinct_elements)

lemma length_insert_sorted:
  "sorted_wrt (\<lambda>a b. entityId a < entityId b) xs \<Longrightarrow>
   length (insert_sorted e xs) = (if e \<in> set xs then length xs else Suc (length xs))"
proof (induction xs)
  case Nil
  show ?case by simp
next
  case (Cons x xs)
  have "e = x" if "\<not> entityId e < entityId x" "\<not> entityId x < entityId e"
    using that by (cases e; cases x) auto
  with Cons show ?case by (auto dest: order.asym)
qed

lemma set_size_insert:
  "set_size (set_insert e s) = (if set_contains s e then set_size s else Suc (set_size s))"
  using elements [of s]
  by (simp add: set_size_def set_contains_def set_insert.rep_eq length_insert_sorted)

lemma set_erase_absent: "\<not> set_contains s e \<Longrightarrow> set_erase e s = s"
  by (auto simp: elements_inject [symmetric] set_erase.rep_eq set_contains_def filter_id_conv)

lemma set_erase_idem: "set_erase e (set_erase e s) = set_erase e s"
  by (simp add: set_erase_absent)

section \<open>Destroying an entity\<close>

lemma Storage_erase_absent:
  "items st e = None \<Longrightarrow> \<not> set_contains (members st) e \<Longrightarrow> Storage_erase e st = st"
  by (simp add: Storage_erase_def set_erase_absent fun_upd_idem)

lemma Storage_erase_idem: "Storage_erase e (Storage_erase e st) = Storage_erase e st"
  by (simp add: Storage_erase_def set_erase_idem)

lemma destroyEntity_idem: "destroyEntity e (destroyEntity e w) = destroyEntity e w"
  by (simp add: destroyEntity_def option.map_comp comp_def Storage_erase_idem set_erase_idem)

lemma destroyEntity_absent:
  assumes "\<not> set_contains (entities w) e"
    and "\<And>T st. componentStorage w T = Some st \<Longrightarrow>
           items st e = None \<and> \<not> set_contains (members st) e"
  shows "destroyEntity e w = w"
proof -
  have "map_option (Storage_erase e) (componentStorage w T) = componentStorage w T" for T
    using assms(2) [of T] by (cases "componentStorage w T") (simp_all add: Storage_erase_absent)
  then show ?thesis
    using assms(1) by (simp add: destroyEntity_def set_erase_absent)
qed

lemma has_destroyEntity: "has T e (destroyEntity e w) = Inr False"
  by (cases "componentStorage w T")
     (simp_all add: has_def hasStorage_def getStorage_def destroyEntity_def
        Storage_contains_def Storage_erase_def)

text \<open>
  C3, as the code has it. \<^verbatim>\<open>destroyEntity(e)\<close> erases \<open>e\<close> from the mapping and the membership
  set of every storage in existence and from the live-entity set, so that \<^verbatim>\<open>has<T>(e)\<close> is
  false for every \<open>T\<close> afterwards; \<^verbatim>\<open>size()\<close> goes down by one when \<open>e\<close> was live and stays as
  it is otherwise; destroying \<open>e\<close> again changes nothing. Destroying an entity that is not
  live (never created, or destroyed) leaves \<^verbatim>\<open>size()\<close> as it is, and changes nothing at all
  when the entity is in no storage either. The call cannot fail, and it publishes
  nothing: whatever is subscribed (and stays subscribed), it runs no callback and leaves
  the environment of the callbacks as it is.
\<close>

theorem destroyEntity_erases_everywhere:
  fixes w :: "('t, 'v, 'cb) World"
  shows "(\<forall>T st. componentStorage w T = Some st \<longrightarrow>
            (\<exists>st'. componentStorage (destroyEntity e w) T = Some st'
               \<and> items st' e = None \<and> \<not> set_contains (members st') e))
    \<and> \<not> set_contains (entities (destroyEntity e w)) e
    \<and> (\<forall>T. has T e (destroyEntity e w) = Inr False)
    \<and> (set_contains (entities w) e \<longrightarrow> World_size (destroyEntity e w) + 1 = World_size w)
    \<and> (\<not> set_contains (entities w) e \<longrightarrow> World_size (destroyEntity e w) = World_size w)
    \<and> destroyEntity e (destroyEntity e w) = destroyEntity e w
    \<and> World_size (destroyEntity e (destroyEntity e w)) = World_size (destroyEntity e w)
    \<and> (\<not> set_contains (entities w) e
         \<and> (\<forall>T st. componentStorage w T = Some st \<longrightarrow>
                items st e = None \<and> \<not> set_contains (members st) e)
       \<longrightarrow> destroyEntity e w = w)
    \<and> (\<forall>run x. exec run (DestroyEntity e) (w, x) = Inr (Nothing, (destroyEntity e w, x)))
    \<and> (\<forall>ph T. subscribers ph T (destroyEntity e w) = subscribers ph T w)"
proof -
  have subs: "subscribers ph T (destroyEntity e w) = subscribers ph T w" for ph T
    by (cases ph; cases "componentStorage w T")
       (simp_all add: subscribers_def destroyEntity_def dispatcher_def Storage_erase_def)
  have size: "set_contains (entities w) e \<Longrightarrow> World_size (destroyEntity e w) + 1 = World_size w"
  proof -
    assume e: "set_contains (entities w) e"
    then have "0 < set_size (entities w)"
      by (auto simp: set_contains_def set_size_def dest: length_pos_if_in_set)
    with e show ?thesis
      by (simp add: World_size_def destroyEntity_def set_size_erase)
  qed
  have erased: "\<exists>st'. componentStorage (destroyEntity e w) T = Some st'
      \<and> items st' e = None \<and> \<not> set_contains (members st') e"
    if "componentStorage w T = Some st" for T st
    using that by (simp add: destroyEntity_def Storage_erase_def)
  show ?thesis
    using size erased subs
    by (simp add: has_destroyEntity destroyEntity_idem destroyEntity_absent)
       (simp add: destroyEntity_def World_size_def set_size_erase)
qed

theorem destroyEntity_erases_everywhere_witness:
  "set_contains (entities example_world) (Entity 0)
   \<and> World_size (destroyEntity (Entity 0) example_world) + 1 = World_size example_world
   \<and> has ''int'' (Entity 0) example_world = Inr True
   \<and> has ''int'' (Entity 0) (destroyEntity (Entity 0) example_world) = Inr False
   \<and> \<not> set_contains (entities example_world) (Entity 7)
   \<and> World_size (destroyEntity (Entity 7) example_world) = World_size example_world
   \<and> destroyEntity (Entity 7) (World_init :: (string, int, unit) World) = World_init
   \<and> subscribers OnRemove ''int'' observed_world_5 = [''removed'']
   \<and> has ''int'' (Entity 0) observed_world_5 = Inr True
   \<and> map_sum id (\<lambda>r. (has ''int'' (Entity 0) (fst (snd r)), snd (snd r)))
        (exec observing (DestroyEntity (Entity 0)) (observed_world_5, [])) = Inr (Inr False, [])"
proof -
  have live: "set_contains (entities example_world) (Entity 0)"
    and held: "has ''int'' (Entity 0) example_world = Inr True"
    and dead: "\<not> set_contains (entities example_world) (Entity 7)"
    by code_simp+
  have fresh: "\<not> set_contains (entities (World_init :: (string, int, unit) World)) (Entity 7)
     \<and> (\<forall>T st. componentStorage (World_init :: (string, int, unit) World) T = Some st \<longrightarrow>
           items st (Entity 7) = None \<and> \<not> set_contains (members st) (Entity 7))"
    by (simp add: World_init_def)
  have observed: "subscribers OnRemove ''int'' observed_world_5 = [''removed'']"
    "has ''int'' (Entity 0) observed_world_5 = Inr True"
    "map_sum id (\<lambda>r. (has ''int'' (Entity 0) (fst (snd r)), snd (snd r)))
        (exec observing (DestroyEntity (Entity 0)) (observed_world_5, [])) = Inr (Inr False, [])"
    by code_simp+
  from live held dead fresh observed
    destroyEntity_erases_everywhere [of example_world "Entity 0"]
    destroyEntity_erases_everywhere [of example_world "Entity 7"]
    destroyEntity_erases_everywhere [of "World_init :: (string, int, unit) World" "Entity 7"]
  show ?thesis by blast
qed

text \<open>
  C3 as stated, that destroying a never-created entity is a no-op, fails: the entity 42
  of the world below was never created and is not live, but holds an \<^verbatim>\<open>int\<close>, and
  \<^verbatim>\<open>destroyEntity\<close> takes it away.
\<close>

theorem destroy_never_created_counterexample:
  "nextEntityId ghost_world = 0
   \<and> World_size ghost_world = 0
   \<and> \<not> set_contains (entities ghost_world) (Entity 42)
   \<and> has ''int'' (Entity 42) ghost_world = Inr True
   \<and> has ''int'' (Entity 42) (destroyEntity (Entity 42) ghost_world) = Inr False
   \<and> destroyEntity (Entity 42) ghost_world \<noteq> ghost_world"
proof -
  have facts: "nextEntityId ghost_world = 0" "World_size ghost_world = 0"
    "\<not> set_contains (entities ghost_world) (Entity 42)"
    "has ''int'' (Entity 42) ghost_world = Inr True"
    "has ''int'' (Entity 42) (destroyEntity (Entity 42) ghost_world) = Inr False"
    by code_simp+
  have "destroyEntity (Entity 42) ghost_world \<noteq> ghost_world"
  proof
    assume "destroyEntity (Entity 42) ghost_world = ghost_world"
    then have "has ''int'' (Entity 42) (destroyEntity (Entity 42) ghost_world)
        = has ''int'' (Entity 42) ghost_world"
      by simp
    with facts(4,5) show False by simp
  qed
  with facts show ?thesis by blast
qed

section \<open>Calls keep the storages in sync\<close>

lemma fold_keeps:
  assumes "callbacks_keep P run"
  shows "P (fst s) \<Longrightarrow> P (fst (fold (\<lambda>item. run (snd item) e) cbs s))"
proof (induction cbs arbitrary: s)
  case Nil
  then show ?case by simp
next
  case (Cons cb cbs)
  from assms Cons.prems have "P (fst (run (snd cb) e s))"
    unfolding callbacks_keep_def by blast
  then have "P (fst (fold (\<lambda>item. run (snd item) e) cbs (run (snd cb) e s)))"
    by (rule Cons.IH)
  then show ?case by simp
qed

lemma publish_keeps:
  "callbacks_keep P run \<Longrightarrow> P (fst s) \<Longrightarrow> P (fst (publish run d e s))"
  unfolding publish_def by (rule fold_keeps)

lemma Storage_sync_init: "Storage_sync Storage_init"
  by (simp add: Storage_sync_def Storage_init_def set_empty.rep_eq)

lemma Storage_sync_insert_or_assign:
  "Storage_sync st \<Longrightarrow> Storage_sync (insert_or_assign e c st)"
  by (simp add: Storage_sync_def insert_or_assign_def set_insert.rep_eq set_insert_sorted)

lemma Storage_sync_erase: "Storage_sync st \<Longrightarrow> Storage_sync (Storage_erase e st)"
  by (auto simp: Storage_sync_def Storage_erase_def set_erase.rep_eq)

lemma Storage_sync_overwrite:
  "Storage_sync st \<Longrightarrow> items st e = Some c \<Longrightarrow> Storage_sync (st\<lparr>items := (items st)(e \<mapsto> c')\<rparr>)"
  by (auto simp: Storage_sync_def)

lemma Storage_sync_put_dispatcher:
  "Storage_sync st \<Longrightarrow> Storage_sync (put_dispatcher ph d st)"
  by (cases ph) (simp_all add: Storage_sync_def put_dispatcher_def)

lemma sync_World_init: "storages_in_sync World_init"
  by (simp add: storages_in_sync_def World_init_def)

lemma sync_ensureStorage: "storages_in_sync w \<Longrightarrow> storages_in_sync (ensureStorage T w)"
  by (simp add: storages_in_sync_def ensureStorage_def Storage_sync_init)

lemma sync_putStorage:
  "storages_in_sync w \<Longrightarrow> Storage_sync st \<Longrightarrow> storages_in_sync (putStorage T st w)"
  by (simp add: storages_in_sync_def putStorage_def)

lemma sync_getStorage: "storages_in_sync w \<Longrightarrow> getStorage T w = Inr st \<Longrightarrow> Storage_sync st"
  by (auto simp: storages_in_sync_def getStorage_def split: option.splits)

lemma sync_createEntity: "storages_in_sync w \<Longrightarrow> storages_in_sync (snd (createEntity w))"
  by (simp add: storages_in_sync_def createEntity_def Let_def)

lemma sync_destroyEntity: "storages_in_sync w \<Longrightarrow> storages_in_sync (destroyEntity e w)"
  by (auto simp: storages_in_sync_def destroyEntity_def Storage_sync_erase)

lemma on_result:
  "on ph T w = Inr (d, w1) \<Longrightarrow> w1 = ensureStorage T w"
  by (cases ph) (auto simp: on_def onCreate_def onUpdate_def onRemove_def Let_def split: sum.splits)

lemma sync_assign:
  assumes "callbacks_keep storages_in_sync run" "storages_in_sync (fst s)"
    and "assign run T e c s = Inr s'"
  shows "storages_in_sync (fst s')"
proof -
  let ?w1 = "ensureStorage T (fst s)"
  obtain st where st: "getStorage T ?w1 = Inr st"
    by (simp add: getStorage_ensureStorage)
  let ?w2 = "putStorage T (insert_or_assign e c st) ?w1"
  have w2: "storages_in_sync ?w2"
    using assms(2) st
    by (intro sync_putStorage Storage_sync_insert_or_assign sync_ensureStorage)
       (auto dest: sync_getStorage [OF sync_ensureStorage])
  have ens: "ensureStorage T ?w2 = ?w2"
    by (simp add: ensureStorage_def hasStorage_def putStorage_def)
  from assms(3) st obtain d where "s' = publish run d e (?w2, snd s)"
    by (auto simp: assign_def Let_def onCreate_def onUpdate_def ens split: sum.splits if_splits)
  with w2 assms(1) show ?thesis
    by (simp add: publish_keeps)
qed

lemma sync_transform:
  assumes "callbacks_keep storages_in_sync run" "storages_in_sync (fst s)"
    and "transform run T e f s = Inr s'"
  shows "storages_in_sync (fst s')"
proof -
  from assms(3) obtain st c where st: "getStorage T (fst s) = Inr st" and c: "items st e = Some c"
    by (auto simp: transform_def Storage_at_def split: sum.splits option.splits)
  let ?w1 = "putStorage T (st\<lparr>items := (items st)(e \<mapsto> f c)\<rparr>) (fst s)"
  have w1: "storages_in_sync ?w1"
    using assms(2) st c by (intro sync_putStorage Storage_sync_overwrite) (auto dest: sync_getStorage)
  from assms(3) st c have "s' = publish run (updateEventDispatcher (st\<lparr>items := (items st)(e \<mapsto> f c)\<rparr>)) e (?w1, snd s)"
    by (auto simp: transform_def Storage_at_def onUpdate_putStorage)
  with w1 assms(1) show ?thesis
    by (simp add: publish_keeps)
qed

lemma patch_eq_transform: "patch run T e f s = transform run T e f s"
  by (simp add: patch_def transform_def)

lemma sync_remove:
  assumes "callbacks_keep storages_in_sync run" "storages_in_sync (fst s)"
    and "remove run T e s = Inr s'"
  shows "storages_in_sync (fst s')"
proof -
  from assms(3) obtain d st where
    st: "getStorage T (fst (publish run d e (ensureStorage T (fst s), snd s))) = Inr st"
    and s': "s' = (putStorage T (Storage_erase e st)
                    (fst (publish run d e (ensureStorage T (fst s), snd s))),
                   snd (publish run d e (ensureStorage T (fst s), snd s)))"
    by (auto simp: remove_def onRemove_def Let_def split: sum.splits)
  have "storages_in_sync (fst (publish run d e (ensureStorage T (fst s), snd s)))"
    using assms(1,2) by (simp add: publish_keeps sync_ensureStorage)
  with st s' show ?thesis
    by (auto intro!: sync_putStorage Storage_sync_erase dest: sync_getStorage)
qed

lemma sync_subscription:
  assumes "storages_in_sync w" "on ph T w = Inr (d, w1)" "getStorage T w1 = Inr st"
  shows "storages_in_sync (putStorage T (put_dispatcher ph d' st) w1)"
proof -
  have "w1 = ensureStorage T w"
    using assms(2) by (rule on_result)
  with assms(1,3) show ?thesis
    by (auto intro!: sync_putStorage Storage_sync_put_dispatcher sync_ensureStorage
             dest: sync_getStorage [OF sync_ensureStorage])
qed

lemma sync_exec:
  assumes "callbacks_keep storages_in_sync run" "storages_in_sync (fst s)"
    and "exec run c s = Inr (r, s')"
  shows "storages_in_sync (fst s')"
proof (cases c)
  case CreateEntity
  with assms show ?thesis
    using sync_createEntity [of "fst s"] by (auto simp: split_def Let_def)
next
  case (DestroyEntity e)
  with assms show ?thesis by (auto simp: sync_destroyEntity)
next
  case (Assign T e v)
  with assms show ?thesis
    by (cases "assign run T e v s") (auto dest: sync_assign)
next
  case (Transform T e f)
  with assms show ?thesis
    by (cases "transform run T e f s") (auto dest: sync_transform)
next
  case (Patch T e f)
  with assms show ?thesis
    by (cases "transform run T e f s") (auto simp: patch_eq_transform dest: sync_transform)
next
  case (Remove T e)
  with assms show ?thesis
    by (cases "remove run T e s") (auto dest: sync_remove)
next
  case (Connect ph T f)
  with assms show ?thesis
    by (auto simp: split_def Let_def split: sum.splits dest: sync_subscription)
next
  case (Disconnect ph T i)
  with assms show ?thesis
    by (auto simp: split_def Let_def split: sum.splits dest: sync_subscription)
qed

lemma sync_exec_all:
  assumes "callbacks_keep storages_in_sync run"
  shows "storages_in_sync (fst s) \<Longrightarrow> exec_all run cs s = Inr (rs, s') \<Longrightarrow> storages_in_sync (fst s')"
proof (induction cs arbitrary: s rs)
  case Nil
  then show ?case by simp
next
  case (Cons c cs)
  from Cons.prems(2) obtain r s1 rs1 where
    c: "exec run c s = Inr (r, s1)" and cs: "exec_all run cs s1 = Inr (rs1, s')"
    by (auto split: sum.splits)
  from assms Cons.prems(1) c have "storages_in_sync (fst s1)"
    by (rule sync_exec)
  then show ?case
    using cs by (rule Cons.IH)
qed

section \<open>Views\<close>

lemma getStorages_Inr:
  "list_all (\<lambda>T. hasStorage T w) Ts \<Longrightarrow>
   getStorages Ts w = Inr (map (\<lambda>T. the (componentStorage w T)) Ts)"
  by (induction Ts) (auto simp: getStorage_def hasStorage_def)

lemma fold_insert_absent:
  "fold (\<lambda>(T, st) m. if m T \<noteq> None then m else m(T \<mapsto> st)) (zip Ts (map g Ts)) m0 T =
     (if m0 T \<noteq> None then m0 T else if T \<in> set Ts then Some (g T) else None)"
  by (induction Ts arbitrary: m0) auto

lemma View_ctor_map:
  "View_ctor b Ts (map g Ts) =
     \<lparr>Components = Ts, first = b, storages = (\<lambda>T. if T \<in> set Ts then Some (g T) else None)\<rparr>"
  unfolding View_ctor_def fold_insert_absent [abs_def] by simp

lemma view_Inr:
  "view b Ts w = Inr \<lparr>Components = Ts, first = b,
     storages = (\<lambda>T. if T \<in> set Ts then Some (copied Ts w T) else None)\<rparr>"
proof (cases "list_all (\<lambda>T. hasStorage T w) Ts")
  case True
  then have "view b Ts w = Inr (View_ctor b Ts (map (copied Ts w) Ts))"
    by (simp add: view_def getStorages_Inr copied_def [abs_def])
  then show ?thesis
    by (simp only: View_ctor_map)
next
  case False
  then have "view b Ts w = Inr (View_ctor b Ts (map (copied Ts w) Ts))"
    by (simp add: view_def copied_def [abs_def])
  then show ?thesis
    by (simp only: View_ctor_map)
qed

lemma all_contain_eq:
  "\<forall>T\<in>set Ts. storages vw T \<noteq> None \<Longrightarrow>
   all_contain vw Ts e = Inr (\<forall>T\<in>set Ts. \<exists>st. storages vw T = Some st \<and> items st e \<noteq> None)"
  by (induction Ts) (auto simp: View_getStorage_def Storage_contains_def)

lemma all_contain_holder:
  "\<forall>T\<in>set (Components vw). storages vw T \<noteq> None \<Longrightarrow>
   all_contain vw (Components vw) e = Inr (holder vw e)"
  unfolding holder_def by (rule all_contain_eq)

lemma all_at_eq:
  "\<forall>T\<in>set Ts. \<exists>st. storages vw T = Some st \<and> items st e \<noteq> None \<Longrightarrow>
   all_at vw Ts e = Inr (map (\<lambda>T. the (items (the (storages vw T)) e)) Ts)"
  by (induction Ts) (auto simp: View_getStorage_def Storage_at_def)

lemma all_at_holder: "holder vw e \<Longrightarrow> all_at vw (Components vw) e = Inr (values_of vw e)"
  unfolding holder_def values_of_def by (rule all_at_eq)

lemma each_loop_eq:
  assumes "\<forall>T\<in>set (Components vw). storages vw T \<noteq> None"
  shows "each_loop vw f es s = Inr (fold (\<lambda>e. f e (values_of vw e)) (filter (holder vw) es) s)"
proof (induction es arbitrary: s)
  case Nil
  show ?case by simp
next
  case (Cons e es)
  show ?case
    by (cases "holder vw e") (simp_all add: all_contain_holder [OF assms] all_at_holder Cons.IH)
qed

lemma fold_record: "fold (\<lambda>e log. log @ [g e]) es acc = acc @ map g es"
  by (induction es arbitrary: acc) auto

lemma fold_calls:
  "fold (\<lambda>(e, cs). f e cs) (map (\<lambda>e. (e, g e)) es) s = fold (\<lambda>e. f e (g e)) es s"
  by (induction es arbitrary: s) auto

lemma has_eq:
  "has T e w = Inr (case componentStorage w T of None \<Rightarrow> False | Some st \<Rightarrow> items st e \<noteq> None)"
  by (simp add: has_def hasStorage_def getStorage_def Storage_contains_def split: option.splits)

lemma holder_view:
  assumes "b \<in> set Ts" and "view b Ts w = Inr vw"
  shows "holder vw e = (\<forall>T\<in>set Ts. has T e w = Inr True)"
proof (cases "list_all (\<lambda>T. hasStorage T w) Ts")
  case True
  have "(\<exists>st. storages vw T = Some st \<and> items st e \<noteq> None) = (has T e w = Inr True)"
    if "T \<in> set Ts" for T
  proof -
    from True that obtain st where "componentStorage w T = Some st"
      by (auto simp: list_all_iff hasStorage_def)
    with assms(2) True that show ?thesis
      by (auto simp: view_Inr copied_def has_eq)
  qed
  moreover have "Components vw = Ts"
    using assms(2) by (auto simp: view_Inr)
  ultimately show ?thesis
    by (simp add: holder_def)
next
  case False
  then obtain T0 where T0: "T0 \<in> set Ts" "componentStorage w T0 = None"
    by (auto simp: list_all_iff hasStorage_def)
  then have "has T0 e w \<noteq> Inr True"
    by (simp add: has_eq)
  with T0 have "\<not> (\<forall>T\<in>set Ts. has T e w = Inr True)"
    by blast
  moreover from assms False have "\<not> holder vw e"
    by (auto simp: view_Inr holder_def copied_def Storage_init_def)
  ultimately show ?thesis by simp
qed

lemma values_view:
  assumes "view b Ts w = Inr vw" and "\<forall>T\<in>set Ts. has T e w = Inr True"
  shows "map Inr (values_of vw e) = map (\<lambda>T. get T e w) Ts"
proof -
  from assms(2) have ex: "\<forall>T\<in>set Ts. \<exists>st c. componentStorage w T = Some st \<and> items st e = Some c"
    by (auto simp: has_eq split: option.splits)
  then have all: "list_all (\<lambda>T. hasStorage T w) Ts"
    by (auto simp: list_all_iff hasStorage_def)
  have "Inr (the (items (the (storages vw T)) e)) = get T e w" if "T \<in> set Ts" for T
  proof -
    from ex that obtain st c where "componentStorage w T = Some st" "items st e = Some c"
      by blast
    with assms(1) all that show ?thesis
      by (auto simp: view_Inr copied_def get_def getStorage_def Storage_at_def)
  qed
  moreover have "Components vw = Ts"
    using assms(1) by (auto simp: view_Inr)
  ultimately show ?thesis
    by (simp add: values_of_def)
qed

text \<open>What \<^verbatim>\<open>each\<close> of a view of \<open>w\<close> calls the callable on.\<close>

lemma each_view:
  fixes w :: "('t, 'v, 'cb) World"
  assumes sync: "storages_in_sync w" and b: "b \<in> set Ts" and vw: "view b Ts w = Inr vw"
  shows "\<exists>calls. each vw (\<lambda>e cs log. log @ [(e, cs)]) [] = Inr calls
    \<and> distinct (map fst calls)
    \<and> set (map fst calls) = {e. \<forall>T\<in>set Ts. has T e w = Inr True}
    \<and> (\<forall>(e, cs)\<in>set calls. map Inr cs = map (\<lambda>T. get T e w) Ts)"
proof -
  have vw_eq: "vw = \<lparr>Components = Ts, first = b,
     storages = (\<lambda>T. if T \<in> set Ts then Some (copied Ts w T) else None)\<rparr>"
    using vw by (simp add: view_Inr)
  then have all: "\<forall>T\<in>set (Components vw). storages vw T \<noteq> None"
    by simp
  have base: "View_base vw = Inr (copied Ts w b)"
    using b by (simp add: View_base_def vw_eq)
  define es where "es = filter (holder vw) (elements (members (copied Ts w b)))"
  define calls where "calls = map (\<lambda>e. (e, values_of vw e)) es"
  have rec: "each vw (\<lambda>e cs log. log @ [(e, cs)]) [] = Inr calls"
    by (simp add: each_def base each_loop_eq [OF all] calls_def es_def fold_record)
  have fst_calls: "map fst calls = es"
    by (simp add: calls_def comp_def)
  have dist: "distinct (map fst calls)"
    by (simp add: fst_calls es_def distinct_elements)
  have base_sync: "Storage_sync (copied Ts w b)"
  proof (cases "list_all (\<lambda>T. hasStorage T w) Ts")
    case True
    with b have "componentStorage w b \<noteq> None"
      by (auto simp: list_all_iff hasStorage_def)
    with sync True show ?thesis
      by (auto simp: copied_def storages_in_sync_def)
  next
    case False
    then show ?thesis by (simp add: copied_def Storage_sync_init)
  qed
  have "e \<in> set (elements (members (copied Ts w b)))" if "holder vw e" for e
  proof -
    from that b have "items (copied Ts w b) e \<noteq> None"
      by (auto simp: holder_def vw_eq)
    with base_sync show ?thesis
      by (auto simp: Storage_sync_def)
  qed
  then have "set es = {e. holder vw e}"
    by (auto simp: es_def)
  then have set_eq: "set (map fst calls) = {e. \<forall>T\<in>set Ts. has T e w = Inr True}"
    by (simp add: fst_calls holder_view [OF b vw])
  have vals: "\<forall>(e, cs)\<in>set calls. map Inr cs = map (\<lambda>T. get T e w) Ts"
  proof -
    have "map Inr (values_of vw e) = map (\<lambda>T. get T e w) Ts" if "e \<in> set es" for e
    proof -
      from that have "holder vw e" by (simp add: es_def)
      then have "\<forall>T\<in>set Ts. has T e w = Inr True"
        by (simp add: holder_view [OF b vw])
      with vw show ?thesis by (rule values_view)
    qed
    then show ?thesis by (auto simp: calls_def)
  qed
  from rec dist set_eq vals show ?thesis by blast
qed

text \<open>Any callable on any state is called as the recording callable is.\<close>

lemma each_as_recorded:
  assumes "\<forall>T\<in>set (Components vw). storages vw T \<noteq> None"
  shows "each vw f s =
    (case each vw (\<lambda>e cs log. log @ [(e, cs)]) [] of
       Inl err \<Rightarrow> Inl err
     | Inr calls \<Rightarrow> Inr (fold (\<lambda>(e, cs). f e cs) calls s))"
  by (cases "View_base vw") (simp_all add: each_def each_loop_eq [OF assms] fold_record fold_calls)

lemma view_storages_present:
  "view b Ts w = Inr vw \<Longrightarrow> \<forall>T\<in>set (Components vw). storages vw T \<noteq> None"
  by (auto simp: view_Inr)

lemma callbacks_keep_nothing: "callbacks_keep P (\<lambda>cb e s. s)"
  by (simp add: callbacks_keep_def)

lemma example_world_sync: "storages_in_sync example_world"
proof -
  let ?r = "exec_all (\<lambda>cb e s. s)
      [CreateEntity, CreateEntity, Assign ''int'' (Entity 0) 5, Assign ''float'' (Entity 0) 7,
       Assign ''int'' (Entity 1) 9] (World_init :: (string, int, unit) World, ())"
  have "\<not> isl ?r" by code_simp
  then obtain rs s' where r: "?r = Inr (rs, s')"
    by (cases ?r) auto
  have "storages_in_sync (fst s')"
    using callbacks_keep_nothing _ r by (rule sync_exec_all) (simp add: sync_World_init)
  with r show ?thesis
    by (simp add: example_world_def)
qed

text \<open>
  C2. On a world whose storages are in sync, \<^verbatim>\<open>view<T1..Tn>().each(f)\<close> does not fail and
  calls \<open>f\<close> exactly once for each entity that holds every one of \<open>T1..Tn\<close>, with the
  values \<^verbatim>\<open>get\<close> gives for that entity, and for no other entity; it calls \<open>f\<close> not at all
  when some \<open>Ti\<close> has no storage or no entity holds it. The list \<open>calls\<close> of the calls is what
  the callable that records its arguments gives; every callable is called on that list.
  \<open>b\<close> is the type whose membership set is scanned.
\<close>

theorem each_visits_exactly_the_holders:
  fixes w :: "('t, 'v, 'cb) World"
  assumes "storages_in_sync w" and "b \<in> set Ts"
  shows "\<exists>vw calls. view b Ts w = Inr vw
    \<and> each vw (\<lambda>e cs log. log @ [(e, cs)]) [] = Inr calls
    \<and> (\<forall>(f :: Entity \<Rightarrow> 'v list \<Rightarrow> 's \<Rightarrow> 's) s.
          each vw f s = Inr (fold (\<lambda>(e, cs). f e cs) calls s))
    \<and> distinct (map fst calls)
    \<and> set (map fst calls) = {e. \<forall>T\<in>set Ts. has T e w = Inr True}
    \<and> (\<forall>(e, cs)\<in>set calls. map Inr cs = map (\<lambda>T. get T e w) Ts)
    \<and> ((\<exists>T\<in>set Ts. \<not> hasStorage T w) \<longrightarrow> calls = [])
    \<and> ((\<exists>T\<in>set Ts. \<forall>e. has T e w = Inr False) \<longrightarrow> calls = [])"
proof -
  obtain vw where vw: "view b Ts w = Inr vw"
    by (simp add: view_Inr)
  from each_view [OF assms vw] obtain calls where
    calls: "each vw (\<lambda>e cs log. log @ [(e, cs)]) [] = Inr calls"
      "distinct (map fst calls)"
      "set (map fst calls) = {e. \<forall>T\<in>set Ts. has T e w = Inr True}"
      "\<forall>(e, cs)\<in>set calls. map Inr cs = map (\<lambda>T. get T e w) Ts"
    by blast
  have none: "calls = []" if "\<exists>T\<in>set Ts. \<forall>e. has T e w = Inr False"
  proof -
    from that obtain T where T: "T \<in> set Ts" "\<forall>e. has T e w = Inr False"
      by blast
    then have "has T e w \<noteq> Inr True" for e
      by simp
    with T(1) have "{e. \<forall>T\<in>set Ts. has T e w = Inr True} = {}"
      by blast
    with calls(3) show ?thesis by simp
  qed
  have "\<forall>e. has T e w = Inr False" if "\<not> hasStorage T w" for T
    using that by (simp add: has_def)
  then have missing: "calls = []" if "\<exists>T\<in>set Ts. \<not> hasStorage T w"
    using that none by blast
  have any: "each vw f s = Inr (fold (\<lambda>(e, cs). f e cs) calls s)"
    for f :: "Entity \<Rightarrow> 'v list \<Rightarrow> 's \<Rightarrow> 's" and s
    using each_as_recorded [OF view_storages_present [OF vw], of f s] calls(1) by simp
  from vw calls none missing any show ?thesis by blast
qed

theorem each_visits_exactly_the_holders_witness:
  "storages_in_sync example_world \<and> ''int'' \<in> set [''int'', ''float'']
   \<and> (\<exists>vw calls. view ''int'' [''int'', ''float''] example_world = Inr vw
        \<and> each vw (\<lambda>e cs log. log @ [(e, cs)]) [] = Inr calls
        \<and> set (map fst calls) = {e. \<forall>T\<in>set [''int'', ''float'']. has T e example_world = Inr True})
   \<and> map_sum id (\<lambda>vw. each vw (\<lambda>e cs log. log @ [(e, cs)]) [])
        (view ''int'' [''int'', ''float''] example_world) = Inr (Inr [(Entity 0, [5, 7])])
   \<and> map_sum id (\<lambda>vw. each vw (\<lambda>e cs log. log @ [(e, cs)]) [])
        (view ''int'' [''int''] example_world) = Inr (Inr [(Entity 0, [5]), (Entity 1, [9])])
   \<and> \<not> hasStorage ''double'' example_world
   \<and> map_sum id (\<lambda>vw. each vw (\<lambda>e cs log. log @ [(e, cs)]) [])
        (view ''int'' [''int'', ''double''] example_world) = Inr (Inr [])
   \<and> map_sum id (\<lambda>vw. each vw (\<lambda>e cs log. log @ [(e, cs)]) [])
        (view ''int'' [''int''] (World_init :: (string, int, unit) World)) = Inr (Inr [])"
proof -
  have b: "''int'' \<in> set [''int'', ''float'']" by simp
  have "\<exists>vw calls. view ''int'' [''int'', ''float''] example_world = Inr vw
        \<and> each vw (\<lambda>e cs log. log @ [(e, cs)]) [] = Inr calls
        \<and> set (map fst calls) = {e. \<forall>T\<in>set [''int'', ''float'']. has T e example_world = Inr True}"
    using each_visits_exactly_the_holders [OF example_world_sync b] by blast
  moreover have "map_sum id (\<lambda>vw. each vw (\<lambda>e cs log. log @ [(e, cs)]) [])
        (view ''int'' [''int'', ''float''] example_world) = Inr (Inr [(Entity 0, [5, 7])])"
    by code_simp
  moreover have "map_sum id (\<lambda>vw. each vw (\<lambda>e cs log. log @ [(e, cs)]) [])
        (view ''int'' [''int''] example_world) = Inr (Inr [(Entity 0, [5]), (Entity 1, [9])])"
    by code_simp
  moreover have "\<not> hasStorage ''double'' example_world"
    by code_simp
  moreover have "map_sum id (\<lambda>vw. each vw (\<lambda>e cs log. log @ [(e, cs)]) [])
        (view ''int'' [''int'', ''double''] example_world) = Inr (Inr [])"
    by code_simp
  moreover have "map_sum id (\<lambda>vw. each vw (\<lambda>e cs log. log @ [(e, cs)]) [])
        (view ''int'' [''int''] (World_init :: (string, int, unit) World)) = Inr (Inr [])"
    by code_simp
  ultimately show ?thesis
    using example_world_sync b by blast
qed

text \<open>
  C5, as the code has it. A view owns copies of the storages, taken when it is built:
  whatever world \<open>w'\<close> and environment the callable of \<^verbatim>\<open>each\<close> works on, and whatever it
  does to them, \<^verbatim>\<open>each\<close> calls it once for each entity that held every requested type in
  the world \<open>w\<close> the view was built from, with the values of \<open>w\<close>.
\<close>

theorem view_keeps_construction_time_storages:
  fixes w :: "('t, 'v, 'cb) World"
  assumes "storages_in_sync w" and "b \<in> set Ts" and "view b Ts w = Inr vw"
  shows "\<exists>calls. distinct (map fst calls)
    \<and> set (map fst calls) = {e. \<forall>T\<in>set Ts. has T e w = Inr True}
    \<and> (\<forall>(e, cs)\<in>set calls. map Inr cs = map (\<lambda>T. get T e w) Ts)
    \<and> (\<forall>(f :: Entity \<Rightarrow> 'v list \<Rightarrow> ('t, 'v, 'cb) World \<times> 'x \<Rightarrow> ('t, 'v, 'cb) World \<times> 'x) w' x.
          each vw f (w', x) = Inr (fold (\<lambda>(e, cs). f e cs) calls (w', x)))"
proof -
  from each_view [OF assms] obtain calls where
    calls: "each vw (\<lambda>e cs log. log @ [(e, cs)]) [] = Inr calls"
      "distinct (map fst calls)"
      "set (map fst calls) = {e. \<forall>T\<in>set Ts. has T e w = Inr True}"
      "\<forall>(e, cs)\<in>set calls. map Inr cs = map (\<lambda>T. get T e w) Ts"
    by blast
  have "each vw f s = Inr (fold (\<lambda>(e, cs). f e cs) calls s)"
    for f :: "Entity \<Rightarrow> 'v list \<Rightarrow> ('t, 'v, 'cb) World \<times> 'x \<Rightarrow> ('t, 'v, 'cb) World \<times> 'x" and s
    using each_as_recorded [OF view_storages_present [OF assms(3)], of f s] calls(1) by simp
  with calls(2-4) show ?thesis by blast
qed

text \<open>
  C5 as stated, that a view borrows the storages, fails: in the example world entities 0 and
  1 hold an \<^verbatim>\<open>int\<close>; the callable removes the \<^verbatim>\<open>int\<close> of entity 1 from the world at its first
  call, and is still called for entity 1, with the value 9, when the world no longer has
  that component (the third entry of a record is \<^verbatim>\<open>has<int>(e)\<close> at the time of the call).
\<close>

theorem view_borrows_counterexample:
  "map_sum id snd
     (case view ''int'' [''int''] example_world of
        Inl err \<Rightarrow> Inl err
      | Inr vw \<Rightarrow> each vw remove_int_of_1 (example_world, []))
   = Inr [(Entity 0, [5], Inr True), (Entity 1, [9], Inr False)]"
  by code_simp

theorem view_keeps_construction_time_storages_witness:
  "storages_in_sync example_world \<and> ''int'' \<in> set [''int'']
   \<and> (\<exists>vw calls. view ''int'' [''int''] example_world = Inr vw
        \<and> set (map fst calls) = {e. \<forall>T\<in>set [''int'']. has T e example_world = Inr True}
        \<and> (\<forall>w' x. each vw remove_int_of_1 (w', x)
               = Inr (fold (\<lambda>(e, cs). remove_int_of_1 e cs) calls (w', x))))"
proof -
  have b: "''int'' \<in> set [''int'']" by simp
  obtain vw where vw: "view ''int'' [''int''] example_world = Inr vw"
    by (simp add: view_Inr)
  from view_keeps_construction_time_storages [OF example_world_sync b vw, where 'x = "(Entity \<times> int list \<times> (error + bool)) list"]
  obtain calls where
    "set (map fst calls) = {e. \<forall>T\<in>set [''int'']. has T e example_world = Inr True}"
    "\<forall>(f :: Entity \<Rightarrow> int list \<Rightarrow> (string, int, unit) World \<times> (Entity \<times> int list \<times> (error + bool)) list \<Rightarrow> _) w' x.
          each vw f (w', x) = Inr (fold (\<lambda>(e, cs). f e cs) calls (w', x))"
    by blast
  with vw example_world_sync b show ?thesis by blast
qed

section \<open>The invariant of the storages\<close>

lemma sync_view:
  assumes "storages_in_sync w" "view b Ts w = Inr vw" "storages vw T = Some st"
  shows "Storage_sync st"
proof -
  from assms(2,3) have T: "T \<in> set Ts" and st: "st = copied Ts w T"
    by (auto simp: view_Inr split: if_splits)
  show ?thesis
  proof (cases "list_all (\<lambda>T. hasStorage T w) Ts")
    case True
    with T have "componentStorage w T \<noteq> None"
      by (auto simp: list_all_iff hasStorage_def)
    with assms(1) True st show ?thesis
      by (auto simp: copied_def storages_in_sync_def)
  next
    case False
    with st show ?thesis by (simp add: copied_def Storage_sync_init)
  qed
qed

text \<open>
  C7. In every storage the key set of the mapping and the membership set are the same
  set: this holds in a new world, every call that returns keeps it (\<^verbatim>\<open>createEntity\<close>,
  \<^verbatim>\<open>destroyEntity\<close>, \<^verbatim>\<open>assign\<close>, \<^verbatim>\<open>transform\<close>, \<^verbatim>\<open>patch\<close>, \<^verbatim>\<open>remove\<close>, connecting and
  disconnecting a callback), so it holds after every sequence of calls on a new world,
  and the storages a view copies have it too. The callbacks are code of the client;
  they are assumed to keep the property, as they do when they change the world through
  these calls. (A sequence of calls is followed up to the first call that throws; in the
  code \<^verbatim>\<open>get\<close>, \<^verbatim>\<open>transform\<close> and \<^verbatim>\<open>patch\<close> throw at the lookup, before they change anything.)
\<close>

theorem storages_stay_in_sync:
  fixes run :: "'cb \<Rightarrow> Entity \<Rightarrow> ('t, 'v, 'cb) World \<times> 'x \<Rightarrow> ('t, 'v, 'cb) World \<times> 'x"
  assumes "callbacks_keep storages_in_sync run"
  shows "storages_in_sync (World_init :: ('t, 'v, 'cb) World)
    \<and> (\<forall>w x c r s'. storages_in_sync w \<longrightarrow> exec run c (w, x) = Inr (r, s') \<longrightarrow>
          storages_in_sync (fst s'))
    \<and> (\<forall>cs x rs s'. exec_all run cs (World_init, x) = Inr (rs, s') \<longrightarrow>
          storages_in_sync (fst s'))
    \<and> (\<forall>(w :: ('t, 'v, 'cb) World) b Ts vw T st. storages_in_sync w \<longrightarrow> view b Ts w = Inr vw \<longrightarrow>
          storages vw T = Some st \<longrightarrow> dom (items st) = set (elements (members st)))"
proof -
  have step: "storages_in_sync (fst s')"
    if "storages_in_sync w" "exec run c (w, x) = Inr (r, s')" for w x c r s'
    using assms _ that(2) by (rule sync_exec) (simp add: that(1))
  have trace: "storages_in_sync (fst s')"
    if "exec_all run cs (World_init, x) = Inr (rs, s')" for cs x rs s'
    using assms _ that by (rule sync_exec_all) (simp add: sync_World_init)
  have views: "dom (items st) = set (elements (members st))"
    if "storages_in_sync w" "view b Ts w = Inr vw" "storages vw T = Some st"
    for w :: "('t, 'v, 'cb) World" and b Ts vw T st
    using sync_view [OF that] by (simp add: Storage_sync_def)
  from step trace views show ?thesis
    using sync_World_init by blast
qed

lemma overwriting_keeps_sync: "callbacks_keep storages_in_sync overwriting"
proof -
  have "storages_in_sync (fst (overwriting cb e s))" if "storages_in_sync (fst s)" for cb e s
  proof (cases "assign (\<lambda>cb e s. s) ''int'' e 99 s")
    case (Inl err)
    with that show ?thesis by (simp add: overwriting_def)
  next
    case (Inr s')
    from callbacks_keep_nothing that Inr have "storages_in_sync (fst s')"
      by (rule sync_assign)
    with Inr show ?thesis by (simp add: overwriting_def)
  qed
  then show ?thesis
    by (simp add: callbacks_keep_def)
qed

theorem storages_stay_in_sync_witness:
  "callbacks_keep storages_in_sync overwriting
   \<and> storages_in_sync (fst (snd (projr (exec_all overwriting
        [CreateEntity, Connect OnCreate ''int'' (), Assign ''int'' (Entity 0) 5,
         Remove ''int'' (Entity 0), DestroyEntity (Entity 0)] (World_init, ())))))"
proof -
  let ?r = "exec_all overwriting
        [CreateEntity, Connect OnCreate ''int'' (), Assign ''int'' (Entity 0) 5,
         Remove ''int'' (Entity 0), DestroyEntity (Entity 0)]
        (World_init :: (string, int, unit) World, ())"
  have "\<not> isl ?r" by code_simp
  then obtain rs s' where r: "?r = Inr (rs, s')"
    by (cases ?r) auto
  with storages_stay_in_sync [OF overwriting_keeps_sync] have "storages_in_sync (fst s')"
    by blast
  with r overwriting_keeps_sync show ?thesis by simp
qed

section \<open>Events\<close>

lemma publish_fold: "publish run d e s = fold (\<lambda>cb. run cb e) (map snd (callbacks d)) s"
  by (simp add: publish_def fold_map comp_def)

lemma dispatcher_init: "callbacks (dispatcher ph Storage_init) = []"
  by (cases ph) (simp_all add: dispatcher_def Storage_init_def EventDispatcher_init_def)

lemma subscribers_ensureStorage: "subscribers ph T' (ensureStorage T w) = subscribers ph T' w"
  by (simp add: subscribers_def ensureStorage_def hasStorage_def dispatcher_init)

lemma has_ensureStorage: "has T' e (ensureStorage T w) = has T' e w"
  by (simp add: has_eq ensureStorage_def hasStorage_def Storage_init_def)

lemma get_ensureStorage: "get T' e (ensureStorage T w) = get T' e w"
  by (auto simp: get_def getStorage_def ensureStorage_def hasStorage_def Storage_init_def
        Storage_at_def split: option.splits)

lemma ensureStorage_putStorage: "ensureStorage T (putStorage T st w) = putStorage T st w"
  by (simp add: ensureStorage_def hasStorage_def putStorage_def)

lemma on_putStorage: "on ph T (putStorage T st w) = Inr (dispatcher ph st, putStorage T st w)"
  by (cases ph)
     (simp_all add: on_def onCreate_def onUpdate_def onRemove_def ensureStorage_putStorage
        dispatcher_def, simp_all add: getStorage_def putStorage_def)

lemma subscribers_putStorage:
  "subscribers ph T (putStorage T st w) = map snd (callbacks (dispatcher ph st))"
  by (simp add: subscribers_def putStorage_def)

lemma fire_putStorage:
  "publish run (dispatcher ph st) e (putStorage T st w, x) = fire run ph T e (putStorage T st w, x)"
  by (simp add: fire_def publish_fold subscribers_putStorage)

lemma assign_fire:
  "assign run T e v (w, x) =
     Inr (fire run (if has T e w = Inr True then OnUpdate else OnCreate) T e (stored T e v w, x))"
proof -
  let ?st = "insert_or_assign e v (case componentStorage w T of None \<Rightarrow> Storage_init | Some st \<Rightarrow> st)"
  have c: "onCreate T (putStorage T ?st (ensureStorage T w)) =
      Inr (dispatcher OnCreate ?st, putStorage T ?st (ensureStorage T w))"
    using on_putStorage [of OnCreate T ?st] by (simp add: on_def)
  have u: "onUpdate T (putStorage T ?st (ensureStorage T w)) =
      Inr (dispatcher OnUpdate ?st, putStorage T ?st (ensureStorage T w))"
    using on_putStorage [of OnUpdate T ?st] by (simp add: on_def)
  have h: "has T e (ensureStorage T w) = has T e w"
    by (rule has_ensureStorage)
  obtain held where held: "has T e w = Inr held"
    by (simp add: has_eq)
  show ?thesis
    by (cases held)
       (simp_all add: assign_def Let_def h held getStorage_ensureStorage c u fire_putStorage
          stored_def)
qed

lemma get_stored: "get T e (stored T e v w) = Inr v"
  by (simp add: stored_def get_def getStorage_def putStorage_def insert_or_assign_def Storage_at_def)

lemma get_stored_other:
  "(T', e') \<noteq> (T, e) \<Longrightarrow> get T' e' (stored T e v w) = get T' e' w"
  by (cases "componentStorage w T")
     (auto simp: stored_def get_def getStorage_def putStorage_def insert_or_assign_def
        Storage_at_def ensureStorage_def hasStorage_def Storage_init_def)

lemma subscribers_stored: "subscribers ph T' (stored T e v w) = subscribers ph T' w"
  by (cases ph; cases "componentStorage w T")
     (auto simp: stored_def subscribers_def putStorage_def insert_or_assign_def
        ensureStorage_def hasStorage_def dispatcher_def Storage_init_def EventDispatcher_init_def)

lemma fold_keeps_on:
  assumes "\<And>cb s. cb \<in> set cbs \<Longrightarrow> P (fst s) \<Longrightarrow> P (fst (run cb e s))"
  shows "P (fst s) \<Longrightarrow> P (fst (fold (\<lambda>cb. run cb e) cbs s))"
  using assms by (induction cbs arbitrary: s) simp_all

lemma get_has: "get T e w = Inr c \<Longrightarrow> has T e w = Inr True"
  by (auto simp: get_def getStorage_def Storage_at_def has_eq split: option.splits)

lemma get_after_fire:
  assumes "\<forall>cb\<in>set (subscribers ph T w). \<forall>s. get T e (fst s) = Inr v \<longrightarrow>
      get T e (fst (run cb e s)) = Inr v"
  shows "get T e (fst (fire run ph T e (stored T e v w, x))) = Inr v"
proof -
  have "get T e (fst (run cb e s)) = Inr v"
    if "cb \<in> set (subscribers ph T (fst (stored T e v w, x)))" "get T e (fst s) = Inr v"
    for cb s
  proof -
    from that(1) have "cb \<in> set (subscribers ph T w)"
      by (simp only: fst_conv subscribers_stored)
    with assms that(2) show ?thesis by blast
  qed
  moreover have "get T e (fst (stored T e v w, x)) = Inr v"
    by (simp add: get_stored)
  ultimately show ?thesis
    unfolding fire_def by (rule fold_keeps_on [where P = "\<lambda>w. get T e w = Inr v"])
qed

text \<open>
  C1, as the code has it. \<^verbatim>\<open>assign<T>(e, v)\<close> cannot fail. It stores \<open>v\<close> for \<open>e\<close> and only
  then fires one event on the world that holds \<open>v\<close>: the update event of \<open>T\<close> when \<open>e\<close> held
  \<open>T\<close> immediately before the call, the create event otherwise. Nothing else is changed
  and nothing else is fired. The callbacks of that event run after the store and may
  assign or remove the component themselves. When they leave it alone, \<^verbatim>\<open>get<T>(e)\<close> after
  the call gives \<open>v\<close>, and a second \<^verbatim>\<open>assign<T>(e, v2)\<close> stores \<open>v2\<close> and fires the update event;
  \<^verbatim>\<open>get<T>(e)\<close> then gives \<open>v2\<close> when the callbacks of the update event leave it alone.
\<close>

theorem assign_stores_then_fires_one_event:
  fixes w :: "('t, 'v, 'cb) World"
  shows "\<exists>w1. assign run T e v (w, x) =
        Inr (fire run (if has T e w = Inr True then OnUpdate else OnCreate) T e (w1, x))
    \<and> get T e w1 = Inr v
    \<and> (\<forall>T' e'. (T', e') \<noteq> (T, e) \<longrightarrow> get T' e' w1 = get T' e' w)
    \<and> (\<forall>ph T'. subscribers ph T' w1 = subscribers ph T' w)
    \<and> ((\<forall>cb\<in>set (subscribers (if has T e w = Inr True then OnUpdate else OnCreate) T w).
           \<forall>s. get T e (fst s) = Inr v \<longrightarrow> get T e (fst (run cb e s)) = Inr v)
        \<longrightarrow> (\<exists>s'. assign run T e v (w, x) = Inr s' \<and> get T e (fst s') = Inr v
              \<and> (\<forall>v2. \<exists>w2. assign run T e v2 s' = Inr (fire run OnUpdate T e (w2, snd s'))
                     \<and> get T e w2 = Inr v2
                     \<and> ((\<forall>cb\<in>set (subscribers OnUpdate T (fst s')).
                            \<forall>s. get T e (fst s) = Inr v2 \<longrightarrow>
                                get T e (fst (run cb e s)) = Inr v2)
                         \<longrightarrow> (\<exists>s''. assign run T e v2 s' = Inr s''
                               \<and> get T e (fst s'') = Inr v2)))))"
proof -
  let ?ph = "if has T e w = Inr True then OnUpdate else OnCreate"
  let ?s' = "fire run ?ph T e (stored T e v w, x)"
  have first: "assign run T e v (w, x) = Inr ?s'"
    by (rule assign_fire)
  have second: "\<exists>w2. assign run T e v2 ?s' = Inr (fire run OnUpdate T e (w2, snd ?s'))
      \<and> get T e w2 = Inr v2
      \<and> ((\<forall>cb\<in>set (subscribers OnUpdate T (fst ?s')).
             \<forall>s. get T e (fst s) = Inr v2 \<longrightarrow> get T e (fst (run cb e s)) = Inr v2)
          \<longrightarrow> (\<exists>s''. assign run T e v2 ?s' = Inr s'' \<and> get T e (fst s'') = Inr v2))"
    if held: "get T e (fst ?s') = Inr v" for v2
  proof -
    from held have "has T e (fst ?s') = Inr True"
      by (rule get_has)
    with assign_fire [of run T e v2 "fst ?s'" "snd ?s'"]
    have a: "assign run T e v2 ?s' = Inr (fire run OnUpdate T e (stored T e v2 (fst ?s'), snd ?s'))"
      by simp
    have "get T e (fst (fire run OnUpdate T e (stored T e v2 (fst ?s'), snd ?s'))) = Inr v2"
      if "\<forall>cb\<in>set (subscribers OnUpdate T (fst ?s')).
             \<forall>s. get T e (fst s) = Inr v2 \<longrightarrow> get T e (fst (run cb e s)) = Inr v2"
      using that by (rule get_after_fire)
    with a get_stored [of T e v2 "fst ?s'"] show ?thesis
      by blast
  qed
  have kept: "\<exists>s'. assign run T e v (w, x) = Inr s' \<and> get T e (fst s') = Inr v
      \<and> (\<forall>v2. \<exists>w2. assign run T e v2 s' = Inr (fire run OnUpdate T e (w2, snd s'))
             \<and> get T e w2 = Inr v2
             \<and> ((\<forall>cb\<in>set (subscribers OnUpdate T (fst s')).
                    \<forall>s. get T e (fst s) = Inr v2 \<longrightarrow> get T e (fst (run cb e s)) = Inr v2)
                 \<longrightarrow> (\<exists>s''. assign run T e v2 s' = Inr s'' \<and> get T e (fst s'') = Inr v2)))"
    if "\<forall>cb\<in>set (subscribers ?ph T w). \<forall>s. get T e (fst s) = Inr v \<longrightarrow>
          get T e (fst (run cb e s)) = Inr v"
  proof -
    from that have "get T e (fst ?s') = Inr v"
      by (rule get_after_fire)
    with first second show ?thesis
      by (intro exI [of _ ?s']) simp
  qed
  show ?thesis
    using first kept get_stored [of T e v w] get_stored_other [of _ _ T e v w]
      subscribers_stored [of _ _ T e v w]
    by (intro exI [of _ "stored T e v w"] conjI allI impI) blast+
qed

text \<open>
  C1 as stated, that \<^verbatim>\<open>get\<close> gives the assigned value right after every \<^verbatim>\<open>assign\<close>, fails
  where a callback changes the component: with the callback
  \<^verbatim>\<open>[](World& w, Entity e) { w.assign<int>(e, 99); }\<close> connected to the create event of
  \<^verbatim>\<open>int\<close> (nothing is connected to the update event, so the inner \<^verbatim>\<open>assign\<close> runs no callback),
  \<^verbatim>\<open>assign<int>(e, 5)\<close> leaves 99.
\<close>

theorem assign_then_get_counterexample:
  "map_sum id (\<lambda>s. get ''int'' (Entity 0) (fst s))
     (assign overwriting ''int'' (Entity 0) 5 (subscribed_world, ())) = Inr (Inr 99)"
  by code_simp

theorem assign_stores_then_fires_one_event_witness:
  "(\<exists>s'. assign observing ''int'' (Entity 0) 5 (observed_world, []) = Inr s'
      \<and> get ''int'' (Entity 0) (fst s') = Inr 5
      \<and> (\<exists>w2. assign observing ''int'' (Entity 0) 6 s'
              = Inr (fire observing OnUpdate ''int'' (Entity 0) (w2, snd s')))
      \<and> (\<exists>s''. assign observing ''int'' (Entity 0) 6 s' = Inr s''
            \<and> get ''int'' (Entity 0) (fst s'') = Inr 6))
   \<and> subscribers OnCreate ''int'' observed_world = [''created'']
   \<and> has ''int'' (Entity 0) observed_world = Inr False
   \<and> map_sum id snd (assign observing ''int'' (Entity 0) 5 (observed_world, []))
       = Inr [(''created'', Entity 0, Inr True)]
   \<and> map_sum id (\<lambda>s. (get ''int'' (Entity 0) (fst s), snd s))
       (case assign observing ''int'' (Entity 0) 5 (observed_world, []) of
          Inl err \<Rightarrow> Inl err
        | Inr s \<Rightarrow> assign observing ''int'' (Entity 0) 6 s)
       = Inr (Inr 6, [(''created'', Entity 0, Inr True), (''updated'', Entity 0, Inr True)])"
proof -
  have kept: "\<forall>cb\<in>set (subscribers
        (if has ''int'' (Entity 0) observed_world = Inr True then OnUpdate else OnCreate)
        ''int'' observed_world).
      \<forall>s. get ''int'' (Entity 0) (fst s) = Inr 5 \<longrightarrow>
          get ''int'' (Entity 0) (fst (observing cb (Entity 0) s)) = Inr 5"
    by (simp add: observing_def)
  from assign_stores_then_fires_one_event
      [of observing "''int''" "Entity 0" 5 observed_world "[]"]
  obtain w1 where "(\<forall>cb\<in>set (subscribers
        (if has ''int'' (Entity 0) observed_world = Inr True then OnUpdate else OnCreate)
        ''int'' observed_world).
      \<forall>s. get ''int'' (Entity 0) (fst s) = Inr 5 \<longrightarrow>
          get ''int'' (Entity 0) (fst (observing cb (Entity 0) s)) = Inr 5)
    \<longrightarrow> (\<exists>s'. assign observing ''int'' (Entity 0) 5 (observed_world, []) = Inr s'
          \<and> get ''int'' (Entity 0) (fst s') = Inr 5
          \<and> (\<forall>v2. \<exists>w2. assign observing ''int'' (Entity 0) v2 s'
                   = Inr (fire observing OnUpdate ''int'' (Entity 0) (w2, snd s'))
                 \<and> get ''int'' (Entity 0) w2 = Inr v2
                 \<and> ((\<forall>cb\<in>set (subscribers OnUpdate ''int'' (fst s')).
                        \<forall>s. get ''int'' (Entity 0) (fst s) = Inr v2 \<longrightarrow>
                            get ''int'' (Entity 0) (fst (observing cb (Entity 0) s)) = Inr v2)
                     \<longrightarrow> (\<exists>s''. assign observing ''int'' (Entity 0) v2 s' = Inr s''
                           \<and> get ''int'' (Entity 0) (fst s'') = Inr v2))))"
    by (elim exE conjE)
  with kept obtain s' where s': "assign observing ''int'' (Entity 0) 5 (observed_world, []) = Inr s'"
      "get ''int'' (Entity 0) (fst s') = Inr 5"
    and again: "\<forall>v2. \<exists>w2. assign observing ''int'' (Entity 0) v2 s'
                   = Inr (fire observing OnUpdate ''int'' (Entity 0) (w2, snd s'))
                 \<and> get ''int'' (Entity 0) w2 = Inr v2
                 \<and> ((\<forall>cb\<in>set (subscribers OnUpdate ''int'' (fst s')).
                        \<forall>s. get ''int'' (Entity 0) (fst s) = Inr v2 \<longrightarrow>
                            get ''int'' (Entity 0) (fst (observing cb (Entity 0) s)) = Inr v2)
                     \<longrightarrow> (\<exists>s''. assign observing ''int'' (Entity 0) v2 s' = Inr s''
                           \<and> get ''int'' (Entity 0) (fst s'') = Inr v2))"
    by (elim impE exE conjE)
  have kept2: "\<forall>cb\<in>set (subscribers OnUpdate ''int'' (fst s')).
      \<forall>s. get ''int'' (Entity 0) (fst s) = Inr 6 \<longrightarrow>
          get ''int'' (Entity 0) (fst (observing cb (Entity 0) s)) = Inr 6"
    by (simp add: observing_def)
  from again [THEN spec, of 6] obtain w2 where
    upd: "assign observing ''int'' (Entity 0) 6 s'
       = Inr (fire observing OnUpdate ''int'' (Entity 0) (w2, snd s'))"
    and imp: "(\<forall>cb\<in>set (subscribers OnUpdate ''int'' (fst s')).
            \<forall>s. get ''int'' (Entity 0) (fst s) = Inr 6 \<longrightarrow>
                get ''int'' (Entity 0) (fst (observing cb (Entity 0) s)) = Inr 6)
         \<longrightarrow> (\<exists>s''. assign observing ''int'' (Entity 0) 6 s' = Inr s''
               \<and> get ''int'' (Entity 0) (fst s'') = Inr 6)"
    by (elim exE conjE)
  from imp [THEN mp, OF kept2] obtain s'' where
    s'': "assign observing ''int'' (Entity 0) 6 s' = Inr s''"
      "get ''int'' (Entity 0) (fst s'') = Inr 6"
    by (elim exE conjE)
  have "\<exists>s'. assign observing ''int'' (Entity 0) 5 (observed_world, []) = Inr s'
      \<and> get ''int'' (Entity 0) (fst s') = Inr 5
      \<and> (\<exists>w2. assign observing ''int'' (Entity 0) 6 s'
              = Inr (fire observing OnUpdate ''int'' (Entity 0) (w2, snd s')))
      \<and> (\<exists>s''. assign observing ''int'' (Entity 0) 6 s' = Inr s''
            \<and> get ''int'' (Entity 0) (fst s'') = Inr 6)"
  proof (rule exI [of _ s'], intro conjI)
    show "\<exists>w2. assign observing ''int'' (Entity 0) 6 s'
              = Inr (fire observing OnUpdate ''int'' (Entity 0) (w2, snd s'))"
      using upd by (rule exI)
    show "\<exists>s''. assign observing ''int'' (Entity 0) 6 s' = Inr s''
            \<and> get ''int'' (Entity 0) (fst s'') = Inr 6"
      using s'' by (intro exI [of _ s''] conjI)
  qed (rule s')+
  moreover have "subscribers OnCreate ''int'' observed_world = [''created'']"
    by code_simp
  moreover have "has ''int'' (Entity 0) observed_world = Inr False"
    by code_simp
  moreover have "map_sum id snd (assign observing ''int'' (Entity 0) 5 (observed_world, []))
       = Inr [(''created'', Entity 0, Inr True)]"
    by code_simp
  moreover have "map_sum id (\<lambda>s. (get ''int'' (Entity 0) (fst s), snd s))
       (case assign observing ''int'' (Entity 0) 5 (observed_world, []) of
          Inl err \<Rightarrow> Inl err
        | Inr s \<Rightarrow> assign observing ''int'' (Entity 0) 6 s)
       = Inr (Inr 6, [(''created'', Entity 0, Inr True), (''updated'', Entity 0, Inr True)])"
    by code_simp
  ultimately show ?thesis
    by blast
qed

section \<open>Removing a component\<close>

lemma Storage_erase_init: "Storage_erase e Storage_init = Storage_init"
  by (simp add: Storage_erase_def Storage_init_def set_erase_absent)

lemma remove_fire:
  assumes "callbacks_keep (hasStorage T) run"
  shows "\<exists>st. getStorage T (fst (fire run OnRemove T e (ensureStorage T w, x))) = Inr st
    \<and> remove run T e (w, x) =
        Inr (putStorage T (Storage_erase e st) (fst (fire run OnRemove T e (ensureStorage T w, x))),
             snd (fire run OnRemove T e (ensureStorage T w, x)))"
proof -
  obtain st0 where st0: "getStorage T (ensureStorage T w) = Inr st0"
    by (simp add: getStorage_ensureStorage)
  then have sub: "subscribers OnRemove T (ensureStorage T w) = map snd (callbacks (removeEventDispatcher st0))"
    by (auto simp: subscribers_def getStorage_def dispatcher_def split: option.splits)
  have pub: "publish run (removeEventDispatcher st0) e (ensureStorage T w, x)
      = fire run OnRemove T e (ensureStorage T w, x)"
    by (simp add: fire_def publish_fold sub)
  have "hasStorage T (fst (ensureStorage T w, x))"
    using st0 by (auto simp: hasStorage_def getStorage_def split: option.splits)
  with assms have "hasStorage T (fst (publish run (removeEventDispatcher st0) e (ensureStorage T w, x)))"
    by (rule publish_keeps)
  then obtain st where st: "getStorage T (fst (fire run OnRemove T e (ensureStorage T w, x))) = Inr st"
    by (auto simp: pub hasStorage_def getStorage_def)
  with st0 pub show ?thesis
    by (simp add: remove_def onRemove_def Let_def)
qed

text \<open>
  C4. \<^verbatim>\<open>remove<T>(e)\<close> does not fail. It fires the remove event of \<open>T\<close> once, on a world in
  which \<open>e\<close> holds what it held before the call, and after that erases \<open>e\<close> from the mapping
  and the membership set of \<open>T\<close>, nothing else: \<^verbatim>\<open>has<T>(e)\<close> is false afterwards. When \<open>T\<close> had
  no storage, the call creates an empty one, finds no subscriber and erases nothing.
  The callbacks are assumed not to take away the storage of \<open>T\<close>, which no call of the
  world does.
\<close>

theorem remove_fires_then_erases:
  fixes w :: "('t, 'v, 'cb) World"
  assumes "callbacks_keep (hasStorage T) run"
  shows "\<exists>s'. remove run T e (w, x) = Inr s'
    \<and> has T e (ensureStorage T w) = has T e w
    \<and> get T e (ensureStorage T w) = get T e w
    \<and> (\<forall>ph. subscribers ph T (ensureStorage T w) = subscribers ph T w)
    \<and> snd s' = snd (fire run OnRemove T e (ensureStorage T w, x))
    \<and> (\<forall>T' e'. (T', e') \<noteq> (T, e) \<longrightarrow>
          get T' e' (fst s') = get T' e' (fst (fire run OnRemove T e (ensureStorage T w, x))))
    \<and> has T e (fst s') = Inr False
    \<and> (\<exists>st. componentStorage (fst s') T = Some st \<and> items st e = None
          \<and> \<not> set_contains (members st) e)
    \<and> (\<not> hasStorage T w \<longrightarrow>
          subscribers OnRemove T (ensureStorage T w) = [] \<and> s' = (ensureStorage T w, x)
          \<and> componentStorage (ensureStorage T w) = (componentStorage w)(T \<mapsto> Storage_init))"
proof -
  let ?s2 = "fire run OnRemove T e (ensureStorage T w, x)"
  from remove_fire [OF assms, of e w x] obtain st where
    st: "getStorage T (fst ?s2) = Inr st"
    and r: "remove run T e (w, x) = Inr (putStorage T (Storage_erase e st) (fst ?s2), snd ?s2)"
    by blast
  let ?s' = "(putStorage T (Storage_erase e st) (fst ?s2), snd ?s2)"
  have other: "get T' e' (fst ?s') = get T' e' (fst ?s2)" if "(T', e') \<noteq> (T, e)" for T' e'
    using that st
    by (auto simp: get_def getStorage_def putStorage_def Storage_erase_def Storage_at_def
        split: option.splits)
  have gone: "has T e (fst ?s') = Inr False"
    by (simp add: has_eq putStorage_def Storage_erase_def)
  have erased: "\<exists>st. componentStorage (fst ?s') T = Some st \<and> items st e = None
      \<and> \<not> set_contains (members st) e"
    by (simp add: putStorage_def Storage_erase_def)
  have fresh: "subscribers OnRemove T (ensureStorage T w) = [] \<and> ?s' = (ensureStorage T w, x)
      \<and> componentStorage (ensureStorage T w) = (componentStorage w)(T \<mapsto> Storage_init)"
    if "\<not> hasStorage T w"
  proof -
    from that have none: "subscribers OnRemove T (ensureStorage T w) = []"
      by (simp add: subscribers_ensureStorage) (simp add: subscribers_def hasStorage_def)
    then have s2: "?s2 = (ensureStorage T w, x)"
      by (simp add: fire_def)
    from that have cs: "componentStorage (ensureStorage T w) = (componentStorage w)(T \<mapsto> Storage_init)"
      by (simp add: ensureStorage_def)
    with st s2 have "st = Storage_init"
      by (simp add: getStorage_def)
    with s2 cs have "?s' = (ensureStorage T w, x)"
      by (simp add: putStorage_def Storage_erase_init)
    with none cs show ?thesis by simp
  qed
  show ?thesis
    using r other gone erased fresh has_ensureStorage [of T e T w] get_ensureStorage [of T e T w]
      subscribers_ensureStorage [of _ T T w]
    by (intro exI [of _ ?s']) (simp only: snd_conv, blast)
qed

theorem remove_fires_then_erases_witness:
  "callbacks_keep (hasStorage ''int'') observing
   \<and> (\<exists>s'. remove observing ''int'' (Entity 0) (observed_world_5, []) = Inr s'
         \<and> has ''int'' (Entity 0) (fst s') = Inr False)
   \<and> has ''int'' (Entity 0) (observed_world_5) = Inr True
   \<and> map_sum id snd
       (remove observing ''int'' (Entity 0) (observed_world_5, []))
       = Inr [(''removed'', Entity 0, Inr True)]
   \<and> callbacks_keep (hasStorage ''float'') observing
   \<and> \<not> hasStorage ''float'' observed_world
   \<and> remove observing ''float'' (Entity 0) (observed_world, [])
       = Inr (ensureStorage ''float'' observed_world, [])"
proof -
  have keep: "callbacks_keep (hasStorage ''int'') observing"
    by (simp add: callbacks_keep_def observing_def)
  have "\<exists>s'. remove observing ''int'' (Entity 0) (observed_world_5, []) = Inr s'
         \<and> has ''int'' (Entity 0) (fst s') = Inr False"
    using remove_fires_then_erases [OF keep, of "Entity 0" "observed_world_5" "[]"]
    by blast
  moreover have "has ''int'' (Entity 0) (observed_world_5) = Inr True"
    by code_simp
  moreover have "map_sum id snd
       (remove observing ''int'' (Entity 0) (observed_world_5, []))
       = Inr [(''removed'', Entity 0, Inr True)]"
    by code_simp
  moreover have "\<not> hasStorage ''float'' observed_world"
    by code_simp
  moreover have keep': "callbacks_keep (hasStorage ''float'') observing"
    by (simp add: callbacks_keep_def observing_def)
  moreover have "remove observing ''float'' (Entity 0) (observed_world, [])
       = Inr (ensureStorage ''float'' observed_world, [])"
  proof -
    have "\<not> hasStorage ''float'' observed_world"
      by code_simp
    with remove_fires_then_erases [OF keep', of "Entity 0" observed_world "[]"]
    show ?thesis by auto
  qed
  ultimately show ?thesis
    using keep by blast
qed

section \<open>Creating entities\<close>

lemma leave_entities_keep:
  "callbacks_leave_entities run \<Longrightarrow>
   callbacks_keep (\<lambda>w. nextEntityId w = n \<and> entities w = E) run"
  by (simp add: callbacks_leave_entities_def callbacks_keep_def)

lemma publish_entities:
  assumes "callbacks_leave_entities run"
  shows "nextEntityId (fst (publish run d e s)) = nextEntityId (fst s)
    \<and> entities (fst (publish run d e s)) = entities (fst s)"
  using publish_keeps [where P = "\<lambda>w. nextEntityId w = nextEntityId (fst s) \<and> entities w = entities (fst s)"
      and s = s, OF leave_entities_keep [OF assms]]
  by simp

lemma fire_entities:
  assumes "callbacks_leave_entities run"
  shows "nextEntityId (fst (fire run ph T e s)) = nextEntityId (fst s)
    \<and> entities (fst (fire run ph T e s)) = entities (fst s)"
  unfolding fire_def
  by (rule fold_keeps_on
        [where P = "\<lambda>w. nextEntityId w = nextEntityId (fst s) \<and> entities w = entities (fst s)"])
     (use assms in \<open>simp_all add: callbacks_leave_entities_def del: split_paired_All\<close>)

lemma ensureStorage_entities:
  "nextEntityId (ensureStorage T w) = nextEntityId w" "entities (ensureStorage T w) = entities w"
  by (simp_all add: ensureStorage_def)

lemma putStorage_entities:
  "nextEntityId (putStorage T st w) = nextEntityId w" "entities (putStorage T st w) = entities w"
  by (simp_all add: putStorage_def)

lemma assign_entities:
  assumes "callbacks_leave_entities run" "assign run T e v s = Inr s'"
  shows "nextEntityId (fst s') = nextEntityId (fst s) \<and> entities (fst s') = entities (fst s)"
proof -
  have "s' = fire run (if has T e (fst s) = Inr True then OnUpdate else OnCreate) T e
      (stored T e v (fst s), snd s)"
    using assms(2) assign_fire [of run T e v "fst s" "snd s"] by simp
  then show ?thesis
    using fire_entities [OF assms(1), of "if has T e (fst s) = Inr True then OnUpdate else OnCreate"
        T e "(stored T e v (fst s), snd s)"]
    by (simp add: stored_def putStorage_entities ensureStorage_entities)
qed

lemma transform_entities:
  assumes "callbacks_leave_entities run" "transform run T e f s = Inr s'"
  shows "nextEntityId (fst s') = nextEntityId (fst s) \<and> entities (fst s') = entities (fst s)"
proof -
  from assms(2) obtain st d where "s' = publish run d e (putStorage T st (fst s), snd s)"
    by (auto simp: transform_def onUpdate_putStorage split: sum.splits)
  then show ?thesis
    using publish_entities [OF assms(1), of d e "(putStorage T st (fst s), snd s)"]
    by (simp add: putStorage_def)
qed

lemma remove_entities:
  assumes "callbacks_leave_entities run" "remove run T e s = Inr s'"
  shows "nextEntityId (fst s') = nextEntityId (fst s) \<and> entities (fst s') = entities (fst s)"
proof -
  from assms(2) obtain st d where
    "s' = (putStorage T st (fst (publish run d e (ensureStorage T (fst s), snd s))),
           snd (publish run d e (ensureStorage T (fst s), snd s)))"
    by (auto simp: remove_def onRemove_def Let_def split: sum.splits)
  then show ?thesis
    using publish_entities [OF assms(1), of d e "(ensureStorage T (fst s), snd s)"]
    by (simp add: putStorage_entities ensureStorage_entities)
qed

lemma exec_entities:
  assumes "callbacks_leave_entities run" "exec run c s = Inr (r, s')"
  shows "nextEntityId (fst s') = nextEntityId (fst s) + of_nat (length (created [r]))
    \<and> created [r] = map (\<lambda>i. Entity (nextEntityId (fst s) + of_nat i)) [0..<length (created [r])]
    \<and> (\<forall>e. set_contains (entities (fst s')) e \<longrightarrow>
          set_contains (entities (fst s)) e \<or> e \<in> set (created [r]))"
proof (cases c)
  case CreateEntity
  with assms(2) show ?thesis
    by (auto simp: createEntity_def Let_def)
next
  case (DestroyEntity e)
  with assms(2) show ?thesis
    by (auto simp: destroyEntity_def)
next
  case (Assign T e v)
  with assms show ?thesis
    by (cases "assign run T e v s") (auto dest: assign_entities)
next
  case (Transform T e f)
  with assms show ?thesis
    by (cases "transform run T e f s") (auto dest: transform_entities)
next
  case (Patch T e f)
  with assms show ?thesis
    by (cases "transform run T e f s") (auto simp: patch_eq_transform dest: transform_entities)
next
  case (Remove T e)
  with assms show ?thesis
    by (cases "remove run T e s") (auto dest: remove_entities)
next
  case (Connect ph T f)
  with assms(2) show ?thesis
    by (auto simp: split_def Let_def putStorage_entities ensureStorage_entities
        split: sum.splits dest!: on_result)
next
  case (Disconnect ph T i)
  with assms(2) show ?thesis
    by (auto simp: split_def Let_def putStorage_entities ensureStorage_entities
        split: sum.splits dest!: on_result)
qed

lemma created_Cons: "created (r # rs) = created [r] @ created rs"
  by (cases r) simp_all

lemma map_upt_shift:
  "map (\<lambda>i. f (k + i)) [0..<n] = map f [k..<k + n]"
  by (induction n) simp_all

lemma exec_all_entities:
  assumes "callbacks_leave_entities run"
  shows "exec_all run cs s = Inr (rs, s') \<Longrightarrow>
    nextEntityId (fst s') = nextEntityId (fst s) + of_nat (length (created rs))
    \<and> created rs = map (\<lambda>i. Entity (nextEntityId (fst s) + of_nat i)) [0..<length (created rs)]
    \<and> (\<forall>e. set_contains (entities (fst s')) e \<longrightarrow>
          set_contains (entities (fst s)) e \<or> e \<in> set (created rs))"
proof (induction cs arbitrary: s rs)
  case Nil
  then show ?case by simp
next
  case (Cons c cs)
  from Cons.prems obtain r s1 rs1 where
    c: "exec run c s = Inr (r, s1)" and cs: "exec_all run cs s1 = Inr (rs1, s')"
    and rs: "rs = r # rs1"
    by (auto split: sum.splits)
  define k where "k = nextEntityId (fst s)"
  define a where "a = length (created [r])"
  define b where "b = length (created rs1)"
  note one = exec_entities [OF assms c]
  have one1: "nextEntityId (fst s1) = k + of_nat a"
    unfolding k_def a_def by (rule one [THEN conjunct1])
  have one2: "created [r] = map (\<lambda>i. Entity (k + of_nat i)) [0..<a]"
    unfolding k_def a_def by (rule one [THEN conjunct2, THEN conjunct1])
  have one3: "\<forall>e. set_contains (entities (fst s1)) e \<longrightarrow>
          set_contains (entities (fst s)) e \<or> e \<in> set (created [r])"
    by (rule one [THEN conjunct2, THEN conjunct2])
  note more = Cons.IH [OF cs]
  have more1: "nextEntityId (fst s') = nextEntityId (fst s1) + of_nat b"
    unfolding b_def by (rule more [THEN conjunct1])
  have more2: "created rs1 = map (\<lambda>i. Entity (nextEntityId (fst s1) + of_nat i)) [0..<b]"
    unfolding b_def by (rule more [THEN conjunct2, THEN conjunct1])
  have more3: "\<forall>e. set_contains (entities (fst s')) e \<longrightarrow>
          set_contains (entities (fst s1)) e \<or> e \<in> set (created rs1)"
    by (rule more [THEN conjunct2, THEN conjunct2])
  have cr: "created rs = created [r] @ created rs1"
    unfolding rs by (rule created_Cons)
  have len: "length (created rs) = a + b"
    by (simp add: cr a_def b_def)
  have next_id: "nextEntityId (fst s') = k + of_nat (length (created rs))"
    by (simp add: len more1 one1)
  have "map (\<lambda>i. Entity (nextEntityId (fst s1) + of_nat i)) [0..<b]
      = map (\<lambda>i. Entity (k + of_nat (a + i))) [0..<b]"
    by (simp add: one1 add.assoc)
  also have "\<dots> = map (\<lambda>i. Entity (k + of_nat i)) [a..<a + b]"
    by (rule map_upt_shift [of "\<lambda>i. Entity (k + of_nat i)" a b])
  finally have rs1_eq: "created rs1 = map (\<lambda>i. Entity (k + of_nat i)) [a..<a + b]"
    by (rule trans [OF more2])
  have upt: "[0..<a] @ [a..<a + b] = [0..<a + b]"
    by (rule upt_add_eq_append [of 0 a b, symmetric]) simp
  have "created [r] @ created rs1
      = map (\<lambda>i. Entity (k + of_nat i)) [0..<a] @ map (\<lambda>i. Entity (k + of_nat i)) [a..<a + b]"
    by (rule arg_cong2 [where f = "(@)", OF one2 rs1_eq])
  then have "created [r] @ created rs1 = map (\<lambda>i. Entity (k + of_nat i)) [0..<a + b]"
    by (simp only: map_append [symmetric] upt)
  then have "created rs = map (\<lambda>i. Entity (k + of_nat i)) [0..<a + b]"
    by (rule trans [OF cr])
  then have ids: "created rs = map (\<lambda>i. Entity (k + of_nat i)) [0..<length (created rs)]"
    unfolding len .
  have live: "\<forall>e. set_contains (entities (fst s')) e \<longrightarrow>
      set_contains (entities (fst s)) e \<or> e \<in> set (created rs)"
    using one3 more3 by (auto simp: cr)
  show ?case
    using next_id ids live unfolding k_def by (intro conjI)
qed

lemma of_nat_32_inj:
  "i < 2 ^ 32 \<Longrightarrow> j < 2 ^ 32 \<Longrightarrow> (of_nat i :: 32 word) = of_nat j \<Longrightarrow> i = j"
  by (drule arg_cong [where f = unat]) (simp add: unat_of_nat)

lemma exec_all_creates:
  "\<exists>rs s'. exec_all run (replicate n CreateEntity) s = Inr (rs, s') \<and> length (created rs) = n"
proof (induction n arbitrary: s)
  case 0
  show ?case by simp
next
  case (Suc n)
  obtain e w' where c: "createEntity (fst s) = (e, w')"
    by (cases "createEntity (fst s)")
  from Suc [of "(w', snd s)"] obtain rs s' where
    "exec_all run (replicate n CreateEntity) (w', snd s) = Inr (rs, s')" "length (created rs) = n"
    by blast
  with c show ?case by simp
qed

lemma identifier_repeats:
  assumes "2 ^ 32 < n"
  shows "\<not> distinct (map (\<lambda>i. Entity (of_nat i :: 32 word)) [0..<n])"
proof
  let ?ids = "map (\<lambda>i. Entity (of_nat i :: 32 word)) [0..<n]"
  define m :: nat where "m = 2 ^ 32"
  have m: "0 < m" "m < n" "(of_nat m :: 32 word) = 0"
    using assms by (simp_all add: m_def)
  assume "distinct ?ids"
  moreover have "0 < length ?ids" "m < length ?ids"
    using m(1,2) by simp_all
  ultimately have "(?ids ! 0 = ?ids ! m) = (0 = m)"
    by (rule nth_eq_iff_index_eq)
  moreover have "?ids ! 0 = Entity (of_nat 0)"
    using m(1,2) by (subst nth_map) (simp_all only: length_upt nth_upt add_0 diff_zero)
  moreover have "?ids ! m = Entity (of_nat m)"
    using m(2) by (subst nth_map) (simp_all only: length_upt nth_upt add_0 diff_zero)
  ultimately show False
    using m(1,3) by simp
qed

text \<open>
  C8 as stated, that identifiers are never reused, fails when the 32-bit counter wraps: of
  \<open>2 ^ 32 + 1\<close> calls of \<^verbatim>\<open>createEntity\<close> on a new world, the last returns the identifier
  0 that the first returned.
\<close>

theorem createEntity_never_reuses_counterexample:
  "\<not> distinct (created (fst (projr (exec_all (\<lambda>cb e s. s) (replicate (2 ^ 32 + 1) CreateEntity)
      (World_init :: (unit, unit, unit) World, ())))))"
proof -
  define n :: nat where "n = 2 ^ 32 + 1"
  have leave: "callbacks_leave_entities (\<lambda>(cb :: unit) e (s :: (unit, unit, unit) World \<times> unit). s)"
    by (simp add: callbacks_leave_entities_def)
  obtain rs s' where r: "exec_all (\<lambda>cb e s. s) (replicate n CreateEntity)
      (World_init :: (unit, unit, unit) World, ()) = Inr (rs, s')" and len: "length (created rs) = n"
    using exec_all_creates by blast
  from exec_all_entities [OF leave r] len
  have "created rs = map (\<lambda>i. Entity (of_nat i)) [0..<n]"
    by (simp add: World_init_def)
  moreover have "2 ^ 32 < n"
    by (simp add: n_def)
  ultimately have "\<not> distinct (created rs)"
    by (simp only: identifier_repeats not_False_eq_True)
  with r have "\<not> distinct (created (fst (projr (exec_all (\<lambda>cb e s. s) (replicate n CreateEntity)
      (World_init :: (unit, unit, unit) World, ())))))"
    by simp
  then show ?thesis
    unfolding n_def .
qed

section \<open>Identifiers issued to the client and to its callbacks\<close>

lemma issues_refl: "issues w [] w"
  by (simp add: issues_def)

lemma issues_fields:
  assumes "issues w ids w'"
    and "nextEntityId v = nextEntityId w" "entities v = entities w"
    and "nextEntityId v' = nextEntityId w'" "entities v' = entities w'"
  shows "issues v ids v'"
  using assms by (simp add: issues_def)

lemma issues_trans:
  assumes ab: "issues w as w1" and bc: "issues w1 bs w2"
  shows "issues w (as @ bs) w2"
proof -
  define k where "k = nextEntityId w"
  define a where "a = length as"
  define b where "b = length bs"
  have k1: "nextEntityId w1 = k + of_nat a"
    and nth_a: "\<forall>i<a. as ! i = Entity (k + of_nat i)"
    and live1: "\<forall>e. set_contains (entities w1) e \<longrightarrow> set_contains (entities w) e \<or> e \<in> set as"
    using ab by (simp_all add: issues_def k_def a_def)
  have k2: "nextEntityId w2 = nextEntityId w1 + of_nat b"
    and nth_b: "\<forall>i<b. bs ! i = Entity (nextEntityId w1 + of_nat i)"
    and live2: "\<forall>e. set_contains (entities w2) e \<longrightarrow> set_contains (entities w1) e \<or> e \<in> set bs"
    using bc by (simp_all add: issues_def b_def)
  have "nextEntityId w2 = k + of_nat (a + b)"
    by (simp add: k2 k1)
  moreover have "(as @ bs) ! i = Entity (k + of_nat i)" if "i < a + b" for i
  proof (cases "i < a")
    case True
    with nth_a show ?thesis
      by (simp add: nth_append a_def)
  next
    case False
    with that have "i - a < b" by simp
    with nth_b have "bs ! (i - a) = Entity (k + of_nat a + of_nat (i - a))"
      by (simp add: k1)
    also have "k + of_nat a + of_nat (i - a) = k + of_nat (a + (i - a))"
      by simp
    also have "a + (i - a) = i"
      using False by simp
    finally show ?thesis
      using False by (simp add: nth_append a_def)
  qed
  moreover have "set_contains (entities w) e \<or> e \<in> set (as @ bs)"
    if "set_contains (entities w2) e" for e
    using that live1 live2 by auto
  ultimately show ?thesis
    by (simp add: issues_def k_def a_def b_def)
qed

lemma issues_createEntity: "issues w [fst (createEntity w)] (snd (createEntity w))"
  by (auto simp: issues_def createEntity_def Let_def)

lemma issues_destroyEntity: "issues w [] (destroyEntity e w)"
  by (simp add: issues_def destroyEntity_def)

lemma lifecycle_issues: "issues w (fst (lifecycle_run ls w)) (snd (lifecycle_run ls w))"
proof (induction ls w rule: lifecycle_run.induct)
  case (1 w)
  show ?case by (simp add: issues_refl)
next
  case (2 ls w)
  obtain e w1 where c: "createEntity w = (e, w1)"
    by (cases "createEntity w")
  from 2 [OF c [symmetric] refl] have "issues w1 (fst (lifecycle_run ls w1)) (snd (lifecycle_run ls w1))" .
  moreover from issues_createEntity [of w] c have "issues w [e] w1"
    by simp
  ultimately have "issues w ([e] @ fst (lifecycle_run ls w1)) (snd (lifecycle_run ls w1))"
    by (rule issues_trans [rotated])
  with c show ?case
    by (simp add: split_def Let_def)
next
  case (3 e ls w)
  from issues_destroyEntity 3 have
    "issues w ([] @ fst (lifecycle_run ls (destroyEntity e w))) (snd (lifecycle_run ls (destroyEntity e w)))"
    by (rule issues_trans)
  then show ?case by simp
qed

lemma callback_issues:
  assumes "callbacks_by_calls run calls_of"
  shows "issues (fst s) (fst (lifecycle_run (calls_of cb e s) (fst s))) (fst (run cb e s))"
proof -
  from assms have
    "nextEntityId (fst (run cb e s)) = nextEntityId (snd (lifecycle_run (calls_of cb e s) (fst s)))"
    "entities (fst (run cb e s)) = entities (snd (lifecycle_run (calls_of cb e s) (fst s)))"
    unfolding callbacks_by_calls_def by blast+
  with lifecycle_issues [of "fst s" "calls_of cb e s"] show ?thesis
    by (auto elim!: issues_fields)
qed

lemma publish_ids_issues:
  assumes "callbacks_by_calls run calls_of"
  shows "issues (fst s) (publish_ids run calls_of cbs e s) (fst (fold (\<lambda>cb. run cb e) cbs s))"
proof (induction cbs arbitrary: s)
  case Nil
  show ?case by (simp add: issues_refl)
next
  case (Cons cb cbs)
  from callback_issues [OF assms, of s cb e] Cons [of "run cb e s"]
  have "issues (fst s)
      (fst (lifecycle_run (calls_of cb e s) (fst s)) @ publish_ids run calls_of cbs e (run cb e s))
      (fst (fold (\<lambda>cb. run cb e) cbs (run cb e s)))"
    by (rule issues_trans)
  then show ?case by simp
qed

lemma fire_issues:
  assumes "callbacks_by_calls run calls_of"
    and "subscribers ph T w1 = subscribers ph T w"
    and "nextEntityId w1 = nextEntityId w" "entities w1 = entities w"
  shows "issues w (publish_ids run calls_of (subscribers ph T w) e (w1, x))
    (fst (fire run ph T e (w1, x)))"
  using publish_ids_issues [OF assms(1), of "(w1, x)" "subscribers ph T w" e] assms(2-4)
  by (auto simp: fire_def elim!: issues_fields)

lemma transform_fire:
  assumes "transform run T e f (w, x) = Inr s'"
  shows "s' = fire run OnUpdate T e (replaced T e f w, x)"
proof -
  from assms obtain st c where st: "componentStorage w T = Some st" and c: "items st e = Some c"
    by (auto simp: transform_def getStorage_def Storage_at_def split: sum.splits option.splits)
  let ?st = "st\<lparr>items := (items st)(e \<mapsto> f c)\<rparr>"
  have "s' = publish run (updateEventDispatcher ?st) e (putStorage T ?st w, x)"
    using assms st c
    by (simp add: transform_def getStorage_def Storage_at_def onUpdate_putStorage)
  also have "updateEventDispatcher ?st = dispatcher OnUpdate ?st"
    by (simp add: dispatcher_def)
  finally show ?thesis
    using st c by (simp only: fire_putStorage) (simp add: replaced_def)
qed

lemma replaced_fields:
  "subscribers ph T' (replaced T e f w) = subscribers ph T' w"
  "nextEntityId (replaced T e f w) = nextEntityId w"
  "entities (replaced T e f w) = entities w"
  by (cases ph; auto simp: replaced_def subscribers_def putStorage_def dispatcher_def
      split: option.splits)+

lemma stored_fields:
  "nextEntityId (stored T e v w) = nextEntityId w" "entities (stored T e v w) = entities w"
  by (simp_all add: stored_def putStorage_def ensureStorage_def)

lemma remove_Inr_fire:
  assumes "remove run T e (w, x) = Inr s'"
  shows "\<exists>st. s' = (putStorage T st (fst (fire run OnRemove T e (ensureStorage T w, x))),
                    snd (fire run OnRemove T e (ensureStorage T w, x)))"
proof -
  obtain st0 where st0: "getStorage T (ensureStorage T w) = Inr st0"
    by (simp add: getStorage_ensureStorage)
  then have sub: "subscribers OnRemove T (ensureStorage T w) = map snd (callbacks (removeEventDispatcher st0))"
    by (auto simp: subscribers_def getStorage_def dispatcher_def split: option.splits)
  have pub: "publish run (removeEventDispatcher st0) e (ensureStorage T w, x)
      = fire run OnRemove T e (ensureStorage T w, x)"
    by (simp add: fire_def publish_fold sub)
  from assms st0 show ?thesis
    by (auto simp: remove_def onRemove_def Let_def pub split: sum.splits)
qed

lemma exec_issues:
  assumes co: "callbacks_by_calls run calls_of" and ex: "exec run c s = Inr (r, s')"
  shows "issues (fst s) (call_ids run calls_of c s) (fst s')"
proof (cases c)
  case CreateEntity
  with ex issues_createEntity [of "fst s"] show ?thesis
    by (auto simp: split_def Let_def)
next
  case (DestroyEntity e)
  with ex issues_destroyEntity [of "fst s" e] show ?thesis
    by auto
next
  case (Assign T e v)
  let ?ph = "if has T e (fst s) = Inr True then OnUpdate else OnCreate"
  from ex Assign have "s' = fire run ?ph T e (stored T e v (fst s), snd s)"
    using assign_fire [of run T e v "fst s" "snd s"] by (auto simp: map_sum_def split: sum.splits)
  moreover have "issues (fst s)
      (publish_ids run calls_of (subscribers ?ph T (fst s)) e (stored T e v (fst s), snd s))
      (fst (fire run ?ph T e (stored T e v (fst s), snd s)))"
    by (rule fire_issues [OF co subscribers_stored stored_fields])
  ultimately show ?thesis
    using Assign by simp
next
  case (Transform T e f)
  with ex have "transform run T e f (fst s, snd s) = Inr s'"
    by (auto simp: map_sum_def split: sum.splits)
  then have "s' = fire run OnUpdate T e (replaced T e f (fst s), snd s)"
    by (rule transform_fire)
  moreover have "issues (fst s)
      (publish_ids run calls_of (subscribers OnUpdate T (fst s)) e (replaced T e f (fst s), snd s))
      (fst (fire run OnUpdate T e (replaced T e f (fst s), snd s)))"
    by (rule fire_issues [OF co replaced_fields])
  ultimately show ?thesis
    using Transform by simp
next
  case (Patch T e f)
  with ex have "transform run T e f (fst s, snd s) = Inr s'"
    by (auto simp: map_sum_def patch_eq_transform split: sum.splits)
  then have "s' = fire run OnUpdate T e (replaced T e f (fst s), snd s)"
    by (rule transform_fire)
  moreover have "issues (fst s)
      (publish_ids run calls_of (subscribers OnUpdate T (fst s)) e (replaced T e f (fst s), snd s))
      (fst (fire run OnUpdate T e (replaced T e f (fst s), snd s)))"
    by (rule fire_issues [OF co replaced_fields])
  ultimately show ?thesis
    using Patch by simp
next
  case (Remove T e)
  with ex have "remove run T e (fst s, snd s) = Inr s'"
    by (auto simp: map_sum_def split: sum.splits)
  from remove_Inr_fire [OF this]
  obtain st where "s' = (putStorage T st (fst (fire run OnRemove T e (ensureStorage T (fst s), snd s))),
                    snd (fire run OnRemove T e (ensureStorage T (fst s), snd s)))" ..
  moreover have "issues (fst s)
      (publish_ids run calls_of (subscribers OnRemove T (fst s)) e (ensureStorage T (fst s), snd s))
      (fst (fire run OnRemove T e (ensureStorage T (fst s), snd s)))"
    by (rule fire_issues [OF co subscribers_ensureStorage ensureStorage_entities])
  ultimately show ?thesis
    using Remove by (auto elim!: issues_fields simp: putStorage_entities)
next
  case (Connect ph T f)
  with ex have "nextEntityId (fst s') = nextEntityId (fst s) \<and> entities (fst s') = entities (fst s)"
    by (auto simp: split_def Let_def putStorage_entities ensureStorage_entities
        split: sum.splits dest!: on_result)
  with issues_refl [of "fst s"] Connect show ?thesis
    by (auto elim!: issues_fields)
next
  case (Disconnect ph T i)
  with ex have "nextEntityId (fst s') = nextEntityId (fst s) \<and> entities (fst s') = entities (fst s)"
    by (auto simp: split_def Let_def putStorage_entities ensureStorage_entities
        split: sum.splits dest!: on_result)
  with issues_refl [of "fst s"] Disconnect show ?thesis
    by (auto elim!: issues_fields)
qed

lemma exec_all_issues:
  assumes "callbacks_by_calls run calls_of"
  shows "exec_all run cs s = Inr (rs, s') \<Longrightarrow> issues (fst s) (issued run calls_of cs s) (fst s')"
proof (induction cs arbitrary: s rs)
  case Nil
  then show ?case by (simp add: issues_refl)
next
  case (Cons c cs)
  from Cons.prems obtain r s1 rs1 where
    c: "exec run c s = Inr (r, s1)" and cs: "exec_all run cs s1 = Inr (rs1, s')"
    by (auto split: sum.splits)
  from exec_issues [OF assms c] Cons.IH [OF cs]
  have "issues (fst s) (call_ids run calls_of c s @ issued run calls_of cs s1) (fst s')"
    by (rule issues_trans)
  with c show ?case by simp
qed

lemma created_in_call_ids:
  "exec run c s = Inr (r, s') \<Longrightarrow> set (created [r]) \<subseteq> set (call_ids run calls_of c s)
     \<and> distinct (created [r])"
  by (cases c) (auto simp: split_def Let_def map_sum_def split: sum.splits)

lemma created_issued:
  "exec_all run cs s = Inr (rs, s') \<Longrightarrow> distinct (issued run calls_of cs s) \<Longrightarrow>
   set (created rs) \<subseteq> set (issued run calls_of cs s) \<and> distinct (created rs)"
proof (induction cs arbitrary: s rs)
  case Nil
  then show ?case by simp
next
  case (Cons c cs)
  from Cons.prems(1) obtain r s1 rs1 where
    c: "exec run c s = Inr (r, s1)" and cs: "exec_all run cs s1 = Inr (rs1, s')"
    and rs: "rs = r # rs1"
    by (auto split: sum.splits)
  from Cons.prems(2) c have d: "distinct (call_ids run calls_of c s @ issued run calls_of cs s1)"
    by simp
  then have "distinct (issued run calls_of cs s1)"
    by simp
  with Cons.IH [OF cs] have rest: "set (created rs1) \<subseteq> set (issued run calls_of cs s1)"
    "distinct (created rs1)"
    by simp_all
  from created_in_call_ids [OF c] have one: "set (created [r]) \<subseteq> set (call_ids run calls_of c s)"
    "distinct (created [r])"
    by simp_all
  have cr: "created rs = created [r] @ created rs1"
    unfolding rs by (rule created_Cons)
  from d one rest have "distinct (created [r] @ created rs1)"
    by (auto simp: distinct_append)
  moreover from one rest have "set (created [r] @ created rs1)
      \<subseteq> set (call_ids run calls_of c s @ issued run calls_of cs s1)"
    by auto
  ultimately show ?case
    using c by (simp add: cr)
qed

text \<open>
  C8, as the code has it. \<^verbatim>\<open>createEntity\<close> cannot fail and returns the value of the
  counter. The identifiers counted are all that \<^verbatim>\<open>createEntity\<close> has returned on the world:
  to the client and to the callbacks that ran during the client's calls, which may create
  and destroy entities. The callbacks are assumed to change the counter and the
  live-entity set only through \<^verbatim>\<open>createEntity\<close> and \<^verbatim>\<open>destroyEntity\<close> (they do not replace
  the world as a whole). On a world reached from a new one by calls during which fewer
  than \<open>2 ^ 32\<close> identifiers were issued, the identifiers issued so far are distinct,
  those returned to the client are among them and distinct, the next \<^verbatim>\<open>createEntity\<close>
  returns one that is none of them, also when entities have been destroyed meanwhile,
  and it raises \<^verbatim>\<open>size()\<close> by one.
\<close>

theorem createEntity_returns_unissued_identifier:
  fixes run :: "'cb \<Rightarrow> Entity \<Rightarrow> ('t, 'v, 'cb) World \<times> 'x \<Rightarrow> ('t, 'v, 'cb) World \<times> 'x"
  assumes "callbacks_by_calls run calls_of"
    and "exec_all run cs (World_init, x) = Inr (rs, (w, x'))"
    and "length (issued run calls_of cs (World_init, x)) < 2 ^ 32"
  shows "\<exists>e w'. createEntity w = (e, w')
    \<and> exec run CreateEntity (w, x') = Inr (NewEntity e, (w', x'))
    \<and> distinct (issued run calls_of cs (World_init, x))
    \<and> set (created rs) \<subseteq> set (issued run calls_of cs (World_init, x))
    \<and> distinct (created rs)
    \<and> e \<notin> set (issued run calls_of cs (World_init, x))
    \<and> e \<notin> set (created rs)
    \<and> World_size w' = World_size w + 1"
proof -
  define ids where "ids = issued run calls_of cs (World_init, x)"
  define n where "n = length ids"
  have trace: "issues World_init ids w"
    using exec_all_issues [OF assms(1,2)] by (simp add: ids_def)
  have next_id: "nextEntityId w = of_nat n"
    using trace by (simp add: issues_def World_init_def n_def)
  have nth: "\<forall>i<n. ids ! i = Entity (of_nat i)"
    using trace by (simp add: issues_def World_init_def n_def)
  have live: "\<forall>e. set_contains (entities w) e \<longrightarrow> e \<in> set ids"
    using trace by (simp add: issues_def World_init_def)
  have n: "n < 2 ^ 32"
    using assms(3) unfolding n_def ids_def .
  have dist: "distinct ids"
    unfolding distinct_conv_nth
  proof (intro allI impI)
    fix i j
    assume "i < length ids" "j < length ids" "i \<noteq> j"
    then have i: "i < n" and j: "j < n"
      by (simp_all add: n_def)
    show "ids ! i \<noteq> ids ! j"
    proof
      assume "ids ! i = ids ! j"
      with nth i j have "(of_nat i :: 32 word) = of_nat j"
        by simp
      with n i j have "i = j"
        by (intro of_nat_32_inj [of i j]) simp_all
      with \<open>i \<noteq> j\<close> show False by simp
    qed
  qed
  have fresh: "Entity (nextEntityId w) \<notin> set ids"
  proof
    assume "Entity (nextEntityId w) \<in> set ids"
    then obtain i where i: "i < n" and "ids ! i = Entity (of_nat n)"
      unfolding in_set_conv_nth next_id n_def by blast
    with nth have "(of_nat i :: 32 word) = of_nat n"
      by simp
    with n i have "i = n"
      by (intro of_nat_32_inj [of i n]) simp_all
    with i show False by simp
  qed
  have client: "set (created rs) \<subseteq> set ids" "distinct (created rs)"
    using created_issued [OF assms(2), of calls_of] dist unfolding ids_def by simp_all
  from fresh live have "\<not> set_contains (entities w) (Entity (nextEntityId w))"
    by blast
  then have size: "World_size (snd (createEntity w)) = World_size w + 1"
    by (simp add: createEntity_def Let_def World_size_def set_size_insert)
  from fresh client(1) have fresh': "Entity (nextEntityId w) \<notin> set (created rs)"
    by blast
  have e: "fst (createEntity w) = Entity (nextEntityId w)"
    by (simp add: createEntity_def Let_def)
  have "createEntity w = (fst (createEntity w), snd (createEntity w))
    \<and> exec run CreateEntity (w, x') = Inr (NewEntity (fst (createEntity w)), (snd (createEntity w), x'))
    \<and> distinct ids
    \<and> set (created rs) \<subseteq> set ids
    \<and> distinct (created rs)
    \<and> fst (createEntity w) \<notin> set ids
    \<and> fst (createEntity w) \<notin> set (created rs)
    \<and> World_size (snd (createEntity w)) = World_size w + 1"
    using dist client fresh [folded e] fresh' [folded e] size by (simp add: split_def Let_def)
  then show ?thesis
    unfolding ids_def by blast
qed

theorem createEntity_returns_unissued_identifier_witness:
  "callbacks_by_calls spawning spawning_calls
   \<and> (\<exists>rs w x'. exec_all spawning [CreateEntity, Connect OnCreate ''int'' (),
            Assign ''int'' (Entity 0) 5, CreateEntity, DestroyEntity (Entity 1)]
          (World_init, ()) = Inr (rs, (w, x'))
        \<and> created rs = [Entity 0, Entity 2]
        \<and> issued spawning spawning_calls [CreateEntity, Connect OnCreate ''int'' (),
            Assign ''int'' (Entity 0) 5, CreateEntity, DestroyEntity (Entity 1)]
          (World_init, ()) = [Entity 0, Entity 1, Entity 2]
        \<and> (\<exists>e w'. createEntity w = (e, w')
               \<and> e \<notin> set [Entity 0, Entity 1, Entity 2]
               \<and> World_size w' = World_size w + 1))
   \<and> (let w = fst (snd (projr (exec_all spawning [CreateEntity, Connect OnCreate ''int'' (),
            Assign ''int'' (Entity 0) 5, CreateEntity, DestroyEntity (Entity 1)]
          (World_init, ()))))
      in (World_size w, fst (createEntity w), World_size (snd (createEntity w))))
     = (2, Entity 3, 3)"
proof -
  let ?cs = "[CreateEntity, Connect OnCreate ''int'' (),
      Assign ''int'' (Entity 0) 5, CreateEntity, DestroyEntity (Entity 1)]
      :: (string, int, unit) call list"
  let ?r = "exec_all spawning ?cs (World_init, ())"
  have calls: "callbacks_by_calls spawning spawning_calls"
    by (simp add: callbacks_by_calls_def spawning_def spawning_calls_def split_def Let_def)
  have "\<not> isl ?r"
    and ret: "fst (projr ?r)
      = [NewEntity (Entity 0), CallbackId 0, Nothing, NewEntity (Entity 2), Nothing]"
    by code_simp+
  then obtain rs w x' where r: "?r = Inr (rs, (w, x'))"
    and rs: "rs = [NewEntity (Entity 0), CallbackId 0, Nothing, NewEntity (Entity 2), Nothing]"
    by (cases ?r) auto
  have cr: "created rs = [Entity 0, Entity 2]"
    by (simp add: rs)
  have ids: "issued spawning spawning_calls ?cs (World_init, ()) = [Entity 0, Entity 1, Entity 2]"
    by code_simp
  have len: "length (issued spawning spawning_calls ?cs (World_init, ())) < 2 ^ 32"
    by (simp only: ids) simp
  have "\<exists>e w'. createEntity w = (e, w')
      \<and> e \<notin> set (issued spawning spawning_calls ?cs (World_init, ()))
      \<and> World_size w' = World_size w + 1"
    using createEntity_returns_unissued_identifier [OF calls r len] by blast
  then have "\<exists>e w'. createEntity w = (e, w')
      \<and> e \<notin> set [Entity 0, Entity 1, Entity 2]
      \<and> World_size w' = World_size w + 1"
    by (simp only: ids)
  with r cr ids have "\<exists>rs w x'. ?r = Inr (rs, (w, x'))
        \<and> created rs = [Entity 0, Entity 2]
        \<and> issued spawning spawning_calls ?cs (World_init, ()) = [Entity 0, Entity 1, Entity 2]
        \<and> (\<exists>e w'. createEntity w = (e, w')
               \<and> e \<notin> set [Entity 0, Entity 1, Entity 2]
               \<and> World_size w' = World_size w + 1)"
    by blast
  moreover have "(let w = fst (snd (projr ?r))
      in (World_size w, fst (createEntity w), World_size (snd (createEntity w))))
     = (2, Entity 3, 3)"
    by code_simp
  ultimately show ?thesis
    using calls by blast
qed

section \<open>Iterating a view\<close>

text \<open>
  C6 fails on the code. In the world where entity 0 holds an \<^verbatim>\<open>int\<close> only and entity 1 a
  \<^verbatim>\<open>float\<close> only, no entity holds both. \<^verbatim>\<open>each\<close> on \<^verbatim>\<open>view<int, float>()\<close> skips the entity it
  scans and calls nothing. The range-based \<^verbatim>\<open>for\<close> over the same view starts at
  \<^verbatim>\<open>begin()\<close>, which is the first scanned entity whether or not it passes the membership
  test, and \<^verbatim>\<open>operator*\<close> throws \<^verbatim>\<open>out_of_range\<close> there instead of skipping it, whichever of
  the two storages is the one scanned.
\<close>

theorem iteration_throws_where_each_skips:
  "map_sum id (\<lambda>vw. each vw (\<lambda>e cs log. log @ [(e, cs)]) [])
     (view ''int'' [''int'', ''float''] disjoint_world) = Inr (Inr [])
   \<and> map_sum id (\<lambda>vw. range_for vw (\<lambda>item log. log @ [item]) [])
     (view ''int'' [''int'', ''float''] disjoint_world) = Inr (Some (Inl out_of_range))
   \<and> map_sum id (\<lambda>vw. each vw (\<lambda>e cs log. log @ [(e, cs)]) [])
     (view ''float'' [''int'', ''float''] disjoint_world) = Inr (Inr [])
   \<and> map_sum id (\<lambda>vw. range_for vw (\<lambda>item log. log @ [item]) [])
     (view ''float'' [''int'', ''float''] disjoint_world) = Inr (Some (Inl out_of_range))"
proof (intro conjI)
  show "map_sum id (\<lambda>vw. each vw (\<lambda>e cs log. log @ [(e, cs)]) [])
     (view ''int'' [''int'', ''float''] disjoint_world) = Inr (Inr [])"
    by code_simp
  show "map_sum id (\<lambda>vw. each vw (\<lambda>e cs log. log @ [(e, cs)]) [])
     (view ''float'' [''int'', ''float''] disjoint_world) = Inr (Inr [])"
    by code_simp
  show "map_sum id (\<lambda>vw. range_for vw (\<lambda>item log. log @ [item]) [])
     (view ''int'' [''int'', ''float''] disjoint_world) = Inr (Some (Inl out_of_range))"
    unfolding range_for_def by (subst for_loop.simps) code_simp
  show "map_sum id (\<lambda>vw. range_for vw (\<lambda>item log. log @ [item]) [])
     (view ''float'' [''int'', ''float''] disjoint_world) = Inr (Some (Inl out_of_range))"
    unfolding range_for_def by (subst for_loop.simps) code_simp
qed

text \<open>
  C10 fails on the code. In the world with one entity, which holds an \<^verbatim>\<open>int\<close>, the scanned
  set of \<^verbatim>\<open>view<int>()\<close> has the one position 0, and the end position is 1.
  \<^verbatim>\<open>operator++\<close> applied to \<^verbatim>\<open>begin()\<close> moves to position 1 and reads the element there
  before it compares with the end: the range-based \<^verbatim>\<open>for\<close> runs its body once, for entity
  0, and then reads the end position.
\<close>

theorem increment_reads_end_position:
  "map_sum id View_begin (view ''int'' [''int''] single_world)
     = Inr (Inr \<lparr>entityIterator = 0, endIterator = 1\<rparr>)
   \<and> map_sum id View_end (view ''int'' [''int''] single_world)
     = Inr (Inr \<lparr>entityIterator = 1, endIterator = 1\<rparr>)
   \<and> map_sum id (\<lambda>vw. Iterator_deref vw \<lparr>entityIterator = 0, endIterator = 1\<rparr>)
       (view ''int'' [''int''] single_world) = Inr (Inr (Entity 0, [5]))
   \<and> map_sum id (\<lambda>vw. Iterator_inc vw \<lparr>entityIterator = 0, endIterator = 1\<rparr>)
       (view ''int'' [''int''] single_world) = Inr (Inl undefined_behaviour)
   \<and> map_sum id (\<lambda>vw. range_for vw (\<lambda>item log. log @ [item]) [])
       (view ''int'' [''int''] single_world) = Inr (Some (Inl undefined_behaviour))"
proof (intro conjI)
  show "map_sum id View_begin (view ''int'' [''int''] single_world)
     = Inr (Inr \<lparr>entityIterator = 0, endIterator = 1\<rparr>)"
    by code_simp
  show "map_sum id View_end (view ''int'' [''int''] single_world)
     = Inr (Inr \<lparr>entityIterator = 1, endIterator = 1\<rparr>)"
    by code_simp
  show "map_sum id (\<lambda>vw. Iterator_deref vw \<lparr>entityIterator = 0, endIterator = 1\<rparr>)
       (view ''int'' [''int''] single_world) = Inr (Inr (Entity 0, [5]))"
    by code_simp
  show "map_sum id (\<lambda>vw. Iterator_inc vw \<lparr>entityIterator = 0, endIterator = 1\<rparr>)
       (view ''int'' [''int''] single_world) = Inr (Inl undefined_behaviour)"
    by code_simp
  show "map_sum id (\<lambda>vw. range_for vw (\<lambda>item log. log @ [item]) [])
       (view ''int'' [''int''] single_world) = Inr (Some (Inl undefined_behaviour))"
    unfolding range_for_def by (subst for_loop.simps) code_simp
qed

end
